theory Spec2Isabelle
  imports Main "HOL-Library.Sublist"
begin

section \<open>Python string primitives used by \<^verbatim>\<open>fix_project.py\<close>\<close>

text \<open>
  The script holds the project file in one Python \<^verbatim>\<open>str\<close>, called \<^verbatim>\<open>content\<close>.
  It is modelled as a \<^typ>\<open>string\<close>; a \<^typ>\<open>char\<close> stands for one code point below 256.
\<close>

abbreviation TAB :: char where "TAB \<equiv> CHR 0x09"
abbreviation NL :: char where "NL \<equiv> CHR 0x0A"
abbreviation CR :: char where "CR \<equiv> CHR 0x0D"

text \<open>\<^verbatim>\<open>sub in s\<close>: the substring test.\<close>

fun str_in :: "string \<Rightarrow> string \<Rightarrow> bool" where
  "str_in sub [] = (sub = [])"
| "str_in sub (c # cs) = (prefix sub (c # cs) \<or> str_in sub cs)"

text \<open>\<^verbatim>\<open>s.find(sub)\<close>: the lowest index where \<^verbatim>\<open>sub\<close> starts, or \<open>-1\<close>.\<close>

fun str_find :: "string \<Rightarrow> string \<Rightarrow> int" where
  "str_find sub [] = (if sub = [] then 0 else - 1)"
| "str_find sub (c # cs) =
     (if prefix sub (c # cs) then 0
      else (let r = str_find sub cs in if r < 0 then - 1 else r + 1))"

text \<open>
  Slice bounds: a negative index counts from the end, and every index is clamped to
  \<open>0..len\<close>. \<^verbatim>\<open>s[:i]\<close> and \<^verbatim>\<open>s[i:]\<close> never raise.
\<close>

definition slice_index :: "int \<Rightarrow> nat \<Rightarrow> nat" where
  "slice_index i n = (if i < 0 then nat (i + int n) else min (nat i) n)"

definition slice_to :: "string \<Rightarrow> int \<Rightarrow> string" where
  "slice_to s i = take (slice_index i (length s)) s"

definition slice_from :: "string \<Rightarrow> int \<Rightarrow> string" where
  "slice_from s i = drop (slice_index i (length s)) s"

section \<open>The regular expressions of the removal loop\<close>

text \<open>
  The three patterns are sequences of greedy repeats of a character class and of literal
  text. \<^verbatim>\<open>\s\<close> and \<^verbatim>\<open>\w\<close> are the Unicode classes of a \<^verbatim>\<open>str\<close> pattern, given here
  for the code points below 256.
\<close>

datatype char_class = Space | Word | NotRBrace

definition is_space :: "char \<Rightarrow> bool" where
  "is_space c = (let n = (of_char c :: nat) in
     (9 \<le> n \<and> n \<le> 13) \<or> (28 \<le> n \<and> n \<le> 32) \<or> n = 133 \<or> n = 160)"

definition is_word :: "char \<Rightarrow> bool" where
  "is_word c = (let n = (of_char c :: nat) in
     (48 \<le> n \<and> n \<le> 57) \<or> (65 \<le> n \<and> n \<le> 90) \<or> n = 95 \<or> (97 \<le> n \<and> n \<le> 122)
     \<or> n = 170 \<or> n = 178 \<or> n = 179 \<or> n = 181 \<or> n = 185 \<or> n = 186
     \<or> (188 \<le> n \<and> n \<le> 190) \<or> (192 \<le> n \<and> n \<le> 214) \<or> (216 \<le> n \<and> n \<le> 246)
     \<or> 248 \<le> n)"

fun in_class :: "char_class \<Rightarrow> char \<Rightarrow> bool" where
  "in_class Space c = is_space c"
| "in_class Word c = is_word c"
| "in_class NotRBrace c = (c \<noteq> CHR ''}'')"

datatype re_item = Lit string | Star char_class | Plus char_class

text \<open>
  A greedy repeat takes as many characters as it can and gives them back one by one
  while the rest of the pattern fails: \<open>try_down f lo n\<close> tries the counts
  \<open>n, n - 1, \<dots>, lo\<close> and keeps the first that succeeds.
\<close>

fun try_down :: "(nat \<Rightarrow> 'a option) \<Rightarrow> nat \<Rightarrow> nat \<Rightarrow> 'a option" where
  "try_down f lo 0 = (if lo = 0 then f 0 else None)"
| "try_down f lo (Suc n) =
     (if Suc n < lo then None
      else (case f (Suc n) of Some r \<Rightarrow> Some r | None \<Rightarrow> try_down f lo n))"

text \<open>
  \<open>match_here p s\<close> matches the pattern at the start of \<open>s\<close>, as the backtracking
  matcher does, and returns the text after the match.
\<close>

primrec match_here :: "re_item list \<Rightarrow> string \<Rightarrow> string option" where
  "match_here [] s = Some s"
| "match_here (it # its) s =
     (case it of
        Lit l \<Rightarrow> (if prefix l s then match_here its (drop (length l) s) else None)
      | Star c \<Rightarrow>
          try_down (\<lambda>n. match_here its (drop n s)) 0 (length (takeWhile (in_class c) s))
      | Plus c \<Rightarrow>
          try_down (\<lambda>n. match_here its (drop n s)) 1 (length (takeWhile (in_class c) s)))"

text \<open>
  \<^verbatim>\<open>re.sub(pattern, '', content)\<close>: scan from the left; where the pattern matches,
  drop the match and go on after it; elsewhere keep the character. With the empty
  replacement an empty match changes nothing, so the scan steps over it.
\<close>

function re_sub_del :: "re_item list \<Rightarrow> string \<Rightarrow> string" where
  "re_sub_del p [] = []"
| "re_sub_del p (c # cs) =
     (case match_here p (c # cs) of
        Some r \<Rightarrow> if length r < length (c # cs) then re_sub_del p r else c # re_sub_del p cs
      | None \<Rightarrow> c # re_sub_del p cs)"
  by pat_completeness auto
termination
  by (relation "measure (\<lambda>(p, s). length s)") auto

section \<open>The removal loop\<close>

text \<open>
  \<^verbatim>\<open>rf'\s*\w+\s*/\* {re.escape(old_file)} in Sources \*/ = \{{[^}}]+\}};'\<close> and
  its two siblings; \<^verbatim>\<open>re.escape\<close> makes the file name match itself, character
  by character.
\<close>

definition build_file_pattern :: "string \<Rightarrow> re_item list" where
  "build_file_pattern old_file =
     [Star Space, Plus Word, Star Space,
      Lit (''/* '' @ old_file @ '' in Sources */ = {''), Plus NotRBrace, Lit ''};'']"

definition file_ref_pattern :: "string \<Rightarrow> re_item list" where
  "file_ref_pattern old_file =
     [Star Space, Plus Word, Star Space,
      Lit (''/* '' @ old_file @ '' */ = {''), Plus NotRBrace, Lit ''};'']"

definition build_phase_pattern :: "string \<Rightarrow> re_item list" where
  "build_phase_pattern old_file =
     [Star Space, Plus Word, Star Space, Lit (''/* '' @ old_file @ '' in Sources */,'')]"

text \<open>The body of the loop over \<^verbatim>\<open>old_files\<close>: three substitutions in this order.\<close>

definition remove_old_file :: "string \<Rightarrow> string \<Rightarrow> string" where
  "remove_old_file old_file content =
     re_sub_del (build_phase_pattern old_file)
       (re_sub_del (file_ref_pattern old_file)
         (re_sub_del (build_file_pattern old_file) content))"

definition remove_old_files :: "string list \<Rightarrow> string \<Rightarrow> string" where
  "remove_old_files old_files content = foldl (\<lambda>c f. remove_old_file f c) content old_files"

section \<open>The insertion loop\<close>

definition anchor :: string where
  "anchor = ''E2DB26FA2E53A25D00139AA3 /* AssistantAppApp.swift in Sources */ = {isa = PBXBuildFile; fileRef = E2DB26F02E53A25D00139AA3 /* AssistantAppApp.swift */; };''"

definition build_entry :: "string \<Rightarrow> string \<Rightarrow> string" where
  "build_entry filename file_id =
     [TAB, TAB] @ file_id @ ''_BUILD /* '' @ filename
       @ '' in Sources */ = {isa = PBXBuildFile; fileRef = '' @ file_id @ '' /* '' @ filename
       @ '' */; };'' @ [NL]"

text \<open>One turn of the loop over \<^verbatim>\<open>new_files\<close>; \<open>insert_pos\<close> was computed before the loop.\<close>

definition insert_entry :: "int \<Rightarrow> string \<times> string \<Rightarrow> string \<Rightarrow> string" where
  "insert_entry insert_pos e content =
     (case e of (filename, file_id) \<Rightarrow>
        if \<not> str_in filename content
        then slice_to content insert_pos @ build_entry filename file_id
               @ slice_from content insert_pos
        else content)"

definition add_new_files :: "(string \<times> string) list \<Rightarrow> string \<Rightarrow> string" where
  "add_new_files new_files content =
     (let insert_pos = str_find anchor content
      in foldl (\<lambda>c e. insert_entry insert_pos e c) content new_files)"

section \<open>The script\<close>

definition old_files :: "string list" where
  "old_files =
     [''AppConfiguration.swift'', ''MainAppView.swift'', ''AuthenticationManager.swift'',
      ''MessageBubbleView.swift'', ''APIModels.swift'', ''APIService.swift'',
      ''DebugView.swift'', ''SecurityManager.swift'']"

definition new_files :: "(string \<times> string) list" where
  "new_files =
     [(''AuthManager.swift'', ''E2DB26F22E53A25D00139AA3''),
      (''ChatView.swift'', ''E2DB26F32E53A25D00139AA3''),
      (''ChatViewModel.swift'', ''E2DB26F42E53A25D00139AA3'')]"

text \<open>The text transformation between the read and the write, for any two lists.\<close>

definition patch_with :: "string list \<Rightarrow> (string \<times> string) list \<Rightarrow> string \<Rightarrow> string" where
  "patch_with olds news content = add_new_files news (remove_old_files olds content)"

text \<open>
  The file system and the terminal. \<open>project_file\<close> is the content of
  \<^verbatim>\<open>AssistantApp.xcodeproj/project.pbxproj\<close>, \<open>None\<close> when it is missing or cannot be
  read; \<open>trace\<close> records what the process did, in order.
\<close>

datatype io_error = IOError

datatype event = EvRead | EvPrint string | EvWrite string

record world =
  project_file :: "string option"
  writable :: bool
  trace :: "event list"

text \<open>
  The file is opened in text mode, so \<^verbatim>\<open>f.read()\<close> turns every \<^verbatim>\<open>\r\n\<close> and every
  other \<^verbatim>\<open>\r\<close> into \<^verbatim>\<open>\n\<close> before the script sees the text.
\<close>

fun universal_newlines :: "string \<Rightarrow> string" where
  "universal_newlines [] = []"
| "universal_newlines [c] = (if c = CR then [NL] else [c])"
| "universal_newlines (c # d # ds) =
     (if c = CR \<and> d = NL then NL # universal_newlines ds
      else if c = CR then NL # universal_newlines (d # ds)
      else c # universal_newlines (d # ds))"

definition read_file :: "world \<Rightarrow> io_error + string \<times> world" where
  "read_file w =
     (case project_file w of
        None \<Rightarrow> Inl IOError
      | Some raw \<Rightarrow> Inr (universal_newlines raw, w\<lparr>trace := trace w @ [EvRead]\<rparr>))"

definition print_line :: "string \<Rightarrow> world \<Rightarrow> world" where
  "print_line msg w = w\<lparr>trace := trace w @ [EvPrint msg]\<rparr>"

text \<open>
  The write is in text mode too; it leaves \<^verbatim>\<open>\n\<close> as it is where the line separator of
  the system is \<^verbatim>\<open>\n\<close>, which is the case on macOS and Linux.
\<close>

definition write_file :: "string \<Rightarrow> world \<Rightarrow> io_error + world" where
  "write_file content w =
     (if writable w then Inr (w\<lparr>project_file := Some content, trace := trace w @ [EvWrite content]\<rparr>)
      else Inl IOError)"

text \<open>
  The statements of the script in their order: read, remove, insert, print, write. An
  error ends the run where it is raised.
\<close>

definition main_with ::
  "string list \<Rightarrow> (string \<times> string) list \<Rightarrow> world \<Rightarrow> (io_error + unit) \<times> world" where
  "main_with olds news w =
     (case read_file w of
        Inl e \<Rightarrow> (Inl e, w)
      | Inr (content, w1) \<Rightarrow>
          (let content' = patch_with olds news content;
               w2 = print_line ''Fixed project file!'' w1
           in case write_file content' w2 of
                Inl e \<Rightarrow> (Inl e, w2)
              | Inr w3 \<Rightarrow> (Inr (), w3)))"

definition main :: "world \<Rightarrow> (io_error + unit) \<times> world" where
  "main = main_with old_files new_files"

section \<open>Vocabulary of the properties\<close>

subsection \<open>Occurrences of the three shapes\<close>

text \<open>
  \<open>has_match p s\<close>: the pattern matches a non-empty piece of \<open>s\<close> starting at some
  position, which is what \<^verbatim>\<open>re.search\<close> decides. A stale file name occurs in one of the
  three shapes when the shape's pattern has a match.
\<close>

fun has_match :: "re_item list \<Rightarrow> string \<Rightarrow> bool" where
  "has_match p [] = False"
| "has_match p (c # cs) =
     ((case match_here p (c # cs) of Some r \<Rightarrow> length r < length (c # cs) | None \<Rightarrow> False)
      \<or> has_match p cs)"

definition no_stale_decl :: "string \<Rightarrow> string \<Rightarrow> bool" where
  "no_stale_decl old_file content \<longleftrightarrow>
     \<not> has_match (build_file_pattern old_file) content
     \<and> \<not> has_match (file_ref_pattern old_file) content
     \<and> \<not> has_match (build_phase_pattern old_file) content"

subsection \<open>Documents laid out in blocks\<close>

text \<open>The literal text in the middle of each pattern.\<close>

definition build_file_text :: "string \<Rightarrow> string" where
  "build_file_text old_file = ''/* '' @ old_file @ '' in Sources */ = {''"

definition file_ref_text :: "string \<Rightarrow> string" where
  "file_ref_text old_file = ''/* '' @ old_file @ '' */ = {''"

definition build_phase_text :: "string \<Rightarrow> string" where
  "build_phase_text old_file = ''/* '' @ old_file @ '' in Sources */,''"

text \<open>The common beginning of the three patterns: \<^verbatim>\<open>\s*\w+\s*\<close>, then the literal text.\<close>

abbreviation decl_pat :: "string \<Rightarrow> re_item list \<Rightarrow> re_item list" where
  "decl_pat L rs \<equiv> Star Space # Plus Word # Star Space # Lit L # rs"

text \<open>
  A block is a whole declaration when the pattern matches all of it; it is inert for a
  literal text when the text does not occur in it and it does not end in white space.
  The trailer is the white space that ends the file.
\<close>

definition whole_decl :: "re_item list \<Rightarrow> string \<Rightarrow> bool" where
  "whole_decl p b \<longleftrightarrow> match_here p b = Some []"

definition inert :: "string \<Rightarrow> string \<Rightarrow> bool" where
  "inert L b \<longleftrightarrow> \<not> str_in L b \<and> (b = [] \<or> \<not> is_space (last b))"

definition trailer :: "string \<Rightarrow> bool" where
  "trailer t \<longleftrightarrow> (t = [] \<or> hd t = NL) \<and> (\<forall>x\<in>set t. is_space x)"

text \<open>
  What may follow a piece of text for the scan to leave the piece alone: nothing, or a
  line break after which the next visible text is not the literal.
\<close>

definition guarded :: "string \<Rightarrow> string \<Rightarrow> bool" where
  "guarded L rest \<longleftrightarrow> rest = [] \<or> (hd rest = NL \<and> \<not> prefix L (dropWhile is_space rest))"

definition stale_block :: "string \<Rightarrow> string \<Rightarrow> bool" where
  "stale_block old_file b \<longleftrightarrow>
     whole_decl (build_file_pattern old_file) b
     \<or> whole_decl (file_ref_pattern old_file) b
     \<or> whole_decl (build_phase_pattern old_file) b"

text \<open>
  A block starts with a line break. For the three substitutions, in their order, it is
  either the whole declaration that the substitution deletes or inert for its literal.
\<close>

definition block_ok :: "string \<Rightarrow> string \<Rightarrow> bool" where
  "block_ok old_file b \<longleftrightarrow>
     b \<noteq> [] \<and> hd b = NL \<and>
     (whole_decl (build_file_pattern old_file) b
      \<or> (inert (build_file_text old_file) b
          \<and> (whole_decl (file_ref_pattern old_file) b
              \<or> (inert (file_ref_text old_file) b
                  \<and> (whole_decl (build_phase_pattern old_file) b
                      \<or> inert (build_phase_text old_file) b)))))"

text \<open>
  A document \<open>h @ concat bs @ tr\<close> is laid out for a stale file name when its header
  \<open>h\<close> is inert, its blocks \<open>bs\<close> are as above and \<open>tr\<close> is a trailer. A project file
  with one declaration per line is of this form, each block being a line together with
  the line break before it.
\<close>

definition laid_out :: "string \<Rightarrow> string \<Rightarrow> string list \<Rightarrow> string \<Rightarrow> bool" where
  "laid_out old_file h bs tr \<longleftrightarrow>
     inert (build_file_text old_file) h \<and> inert (file_ref_text old_file) h
     \<and> inert (build_phase_text old_file) h
     \<and> (\<forall>b\<in>set bs. block_ok old_file b) \<and> trailer tr"

subsection \<open>Which entries the insertion loop inserts\<close>

text \<open>
  The entries for which the body of the \<^verbatim>\<open>if\<close> runs, in order; the document is
  threaded through the loop as in \<open>add_new_files\<close>.
\<close>

fun inserted_entries :: "int \<Rightarrow> (string \<times> string) list \<Rightarrow> string \<Rightarrow> (string \<times> string) list" where
  "inserted_entries insert_pos [] content = []"
| "inserted_entries insert_pos (e # es) content =
     (if \<not> str_in (fst e) content
      then e # inserted_entries insert_pos es (insert_entry insert_pos e content)
      else inserted_entries insert_pos es content)"

definition lines_added :: "(string \<times> string) list \<Rightarrow> string \<Rightarrow> (string \<times> string) list" where
  "lines_added news content = inserted_entries (str_find anchor content) news content"

text \<open>\<open>twice_in f s\<close>: \<open>f\<close> occurs in \<open>s\<close> at two places that do not overlap.\<close>

definition twice_in :: "string \<Rightarrow> string \<Rightarrow> bool" where
  "twice_in f s \<longleftrightarrow> (\<exists>a b c. s = a @ f @ b @ f @ c)"

subsection \<open>The documents of the examples\<close>






text \<open>Documents in which deleting one match joins the text around it into another.\<close>

definition joined_doc :: string where
  "joined_doc = ''X Y /* F in Sources */, /* F in Sources */,''"

definition two_file_doc :: string where
  "two_file_doc = ''X Y /* A in Sources */, /* B in Sources */,''"

text \<open>
  A laid-out document with the header \<^verbatim>\<open>h\<close>: a build-file entry, a file-reference entry
  and a build-phase line for \<^verbatim>\<open>F\<close>, and a line that is none of them.
\<close>

definition small_blocks :: "string list" where
  "small_blocks =
     [[NL] @ ''I /* F in Sources */ = {a};'',
      [NL] @ ''J /* F */ = {b};'',
      [NL] @ ''I /* F in Sources */,'',
      [NL] @ ''x'']"

text \<open>A laid-out document with a build-phase line for \<^verbatim>\<open>A\<close> and one for \<^verbatim>\<open>B\<close>.\<close>

definition pair_blocks :: "string list" where
  "pair_blocks =
     [[NL] @ ''I /* A in Sources */,'',
      [NL] @ ''J /* B in Sources */,'',
      [NL] @ ''x'']"

section \<open>Facts about the string primitives\<close>

lemma str_in_iff: "str_in sub s \<longleftrightarrow> (\<exists>pre post. s = pre @ sub @ post)"
proof (induction s)
  case Nil
  show ?case by auto
next
  case (Cons c cs)
  show ?case
  proof
    assume "str_in sub (c # cs)"
    then consider "prefix sub (c # cs)" | "str_in sub cs" by auto
    then show "\<exists>pre post. c # cs = pre @ sub @ post"
    proof cases
      case 1
      then obtain zs where "c # cs = sub @ zs" by (auto simp: prefix_def)
      then have "c # cs = [] @ sub @ zs" by simp
      then show ?thesis by blast
    next
      case 2
      with Cons.IH obtain pre post where "cs = pre @ sub @ post" by blast
      then have "c # cs = (c # pre) @ sub @ post" by simp
      then show ?thesis by blast
    qed
  next
    assume "\<exists>pre post. c # cs = pre @ sub @ post"
    then obtain pre post where eq: "c # cs = pre @ sub @ post" by blast
    show "str_in sub (c # cs)"
    proof (cases pre)
      case Nil
      with eq have "prefix sub (c # cs)" by (simp add: prefix_def)
      then show ?thesis by simp
    next
      case (Cons a pre')
      with eq have "cs = pre' @ sub @ post" by simp
      with Cons.IH have "str_in sub cs" by blast
      then show ?thesis by simp
    qed
  qed
qed

lemma str_find_range: "str_find sub s = - 1 \<or> (0 \<le> str_find sub s \<and> str_find sub s \<le> int (length s))"
  by (induction s) (auto simp: Let_def)

lemma str_find_absent: "\<not> str_in sub s \<Longrightarrow> str_find sub s = - 1"
  by (induction s) (auto simp: Let_def)

lemma str_find_present:
  "str_in sub s \<Longrightarrow> \<exists>pre post. s = pre @ sub @ post \<and> str_find sub s = int (length pre)"
proof (induction s)
  case Nil
  then show ?case by simp
next
  case (Cons c cs)
  show ?case
  proof (cases "prefix sub (c # cs)")
    case True
    then obtain zs where "c # cs = [] @ sub @ zs" by (auto simp: prefix_def)
    moreover from True have "str_find sub (c # cs) = int (length ([]::string))" by simp
    ultimately show ?thesis by blast
  next
    case False
    with Cons.prems have "str_in sub cs" by simp
    with Cons.IH obtain pre post where
      eq: "cs = pre @ sub @ post" and pos: "str_find sub cs = int (length pre)" by blast
    from eq have "c # cs = (c # pre) @ sub @ post" by simp
    moreover from False pos have "str_find sub (c # cs) = int (length (c # pre))"
      by (simp add: Let_def)
    ultimately show ?thesis by blast
  qed
qed

lemma slice_to_nat: "slice_to (pre @ rest) (int (length pre)) = pre"
  by (simp add: slice_to_def slice_index_def)

lemma slice_from_nat: "slice_from (pre @ rest) (int (length pre)) = rest"
  by (simp add: slice_from_def slice_index_def)

lemma slice_minus_one: "slice_to s (- 1) @ x @ slice_from s (- 1) = butlast s @ x @ (if s = [] then [] else [last s])"
  by (cases s rule: rev_cases) (auto simp: slice_to_def slice_from_def slice_index_def)

lemma slice_to_from: "slice_to s i @ slice_from s i = s"
  by (simp add: slice_to_def slice_from_def)


section \<open>Facts about the matcher and the substitution\<close>

lemma space_not_word: "is_space c \<Longrightarrow> \<not> is_word c"
  by (auto simp: is_space_def is_word_def Let_def)

lemma try_down_SomeD:
  "try_down f lo n = Some r \<Longrightarrow> \<exists>k. lo \<le> k \<and> k \<le> n \<and> f k = Some r"
proof (induction n)
  case 0
  then show ?case by (auto split: if_splits)
next
  case (Suc n)
  show ?case
  proof (cases "f (Suc n)")
    case None
    with Suc.prems have "try_down f lo n = Some r" by (auto split: if_splits)
    with Suc.IH obtain k where "lo \<le> k" "k \<le> n" "f k = Some r" by blast
    then show ?thesis by (intro exI [of _ k]) simp
  next
    case (Some x)
    with Suc.prems have "\<not> Suc n < lo" "x = r" by (auto split: if_splits)
    with Some show ?thesis by (intro exI [of _ "Suc n"]) simp
  qed
qed

lemma try_down_top: "lo \<le> n \<Longrightarrow> f n = Some r \<Longrightarrow> try_down f lo n = Some r"
  by (cases n) auto

lemma take_takeWhile_all:
  "k \<le> length (takeWhile P s) \<Longrightarrow> \<forall>x\<in>set (take k s). P x"
proof (induction s arbitrary: k)
  case Nil
  then show ?case by simp
next
  case (Cons a s)
  then show ?case by (cases k) (auto split: if_splits)
qed

lemma star_sound:
  assumes "match_here (Star c # its) s = Some r"
  shows "\<exists>A t. s = A @ t \<and> (\<forall>x\<in>set A. in_class c x) \<and> match_here its t = Some r"
proof -
  from assms obtain k where k: "k \<le> length (takeWhile (in_class c) s)"
    and m: "match_here its (drop k s) = Some r"
    by (auto dest!: try_down_SomeD)
  have "s = take k s @ drop k s" by simp
  with take_takeWhile_all [OF k] m show ?thesis by blast
qed

lemma plus_sound:
  assumes "match_here (Plus c # its) s = Some r"
  shows "\<exists>A t. s = A @ t \<and> A \<noteq> [] \<and> (\<forall>x\<in>set A. in_class c x) \<and> match_here its t = Some r"
proof -
  from assms obtain k where k: "k \<le> length (takeWhile (in_class c) s)" and k1: "1 \<le> k"
    and m: "match_here its (drop k s) = Some r"
    by (auto dest!: try_down_SomeD)
  from k have "k \<le> length s" using length_takeWhile_le [of "in_class c" s] by linarith
  with k1 have "take k s \<noteq> []" by auto
  moreover have "s = take k s @ drop k s" by simp
  ultimately show ?thesis using take_takeWhile_all [OF k] m by blast
qed

lemma lit_sound:
  assumes "match_here (Lit l # its) s = Some r"
  shows "\<exists>t. s = l @ t \<and> match_here its t = Some r"
  using assms by (auto simp: prefix_def split: if_splits)

lemma takeWhile_stop:
  "\<forall>x\<in>set A. P x \<Longrightarrow> t = [] \<or> \<not> P (hd t) \<Longrightarrow> takeWhile P (A @ t) = A"
  by (cases t) (auto simp: takeWhile_append2)

lemma star_greedy:
  assumes "\<forall>x\<in>set A. in_class c x" and "t = [] \<or> \<not> in_class c (hd t)"
    and "match_here its t = Some r"
  shows "match_here (Star c # its) (A @ t) = Some r"
proof -
  have tw: "takeWhile (in_class c) (A @ t) = A"
    using assms(1,2) by (rule takeWhile_stop)
  have "match_here (Star c # its) (A @ t) =
        try_down (\<lambda>n. match_here its (drop n (A @ t))) 0 (length A)"
    by (simp only: match_here.simps re_item.case tw)
  also have "\<dots> = Some r"
    by (rule try_down_top) (simp_all add: assms(3))
  finally show ?thesis .
qed

lemma plus_greedy:
  assumes "\<forall>x\<in>set A. in_class c x" and "A \<noteq> []" and "t = [] \<or> \<not> in_class c (hd t)"
    and "match_here its t = Some r"
  shows "match_here (Plus c # its) (A @ t) = Some r"
proof -
  have tw: "takeWhile (in_class c) (A @ t) = A"
    using assms(1,3) by (rule takeWhile_stop)
  from assms(2) have len: "1 \<le> length A" by (cases A) auto
  have "match_here (Plus c # its) (A @ t) =
        try_down (\<lambda>n. match_here its (drop n (A @ t))) 1 (length A)"
    by (simp only: match_here.simps re_item.case tw)
  also have "\<dots> = Some r"
    by (rule try_down_top) (use len assms(4) in simp_all)
  finally show ?thesis .
qed

lemma lit_match: "match_here its t = Some r \<Longrightarrow> match_here (Lit l # its) (l @ t) = Some r"
  by simp

lemma head_sound:
  assumes "match_here (Star Space # Plus Word # Star Space # Lit L # rs) s = Some r"
  shows "\<exists>W I W2 t. s = W @ I @ W2 @ L @ t \<and> (\<forall>x\<in>set W. is_space x) \<and> I \<noteq> []
           \<and> (\<forall>x\<in>set I. is_word x) \<and> (\<forall>x\<in>set W2. is_space x) \<and> match_here rs t = Some r"
proof -
  from star_sound [OF assms] obtain W t1 where
    1: "s = W @ t1" "\<forall>x\<in>set W. in_class Space x"
    and m1: "match_here (Plus Word # Star Space # Lit L # rs) t1 = Some r" by blast
  from plus_sound [OF m1] obtain I t2 where
    2: "t1 = I @ t2" "I \<noteq> []" "\<forall>x\<in>set I. in_class Word x"
    and m2: "match_here (Star Space # Lit L # rs) t2 = Some r" by blast
  from star_sound [OF m2] obtain W2 t3 where
    3: "t2 = W2 @ t3" "\<forall>x\<in>set W2. in_class Space x"
    and m3: "match_here (Lit L # rs) t3 = Some r" by blast
  from lit_sound [OF m3] obtain t where 4: "t3 = L @ t" and m4: "match_here rs t = Some r"
    by blast
  from 1 2 3 4 have "s = W @ I @ W2 @ L @ t" by simp
  with 1 2 3 m4 show ?thesis by (intro exI [of _ W] exI [of _ I] exI [of _ W2] exI [of _ t]) simp
qed

lemma head_complete:
  assumes W: "\<forall>x\<in>set W. is_space x" and I: "I \<noteq> []" "\<forall>x\<in>set I. is_word x"
    and W2: "\<forall>x\<in>set W2. is_space x"
    and L: "L \<noteq> []" "\<not> is_space (hd L)" "\<not> is_word (hd L)"
    and rs: "match_here rs t = Some r"
  shows "match_here (Star Space # Plus Word # Star Space # Lit L # rs) (W @ I @ W2 @ L @ t) = Some r"
proof -
  have m3: "match_here (Lit L # rs) (L @ t) = Some r"
    using rs by (rule lit_match)
  have "match_here (Star Space # Lit L # rs) (W2 @ (L @ t)) = Some r"
  proof (rule star_greedy)
    show "\<forall>x\<in>set W2. in_class Space x" using W2 by simp
    show "L @ t = [] \<or> \<not> in_class Space (hd (L @ t))" using L by simp
    show "match_here (Lit L # rs) (L @ t) = Some r" by (rule m3)
  qed
  then have m2: "match_here (Star Space # Lit L # rs) (W2 @ L @ t) = Some r" .
  have "match_here (Plus Word # Star Space # Lit L # rs) (I @ (W2 @ L @ t)) = Some r"
  proof (rule plus_greedy)
    show "\<forall>x\<in>set I. in_class Word x" using I by simp
    show "I \<noteq> []" by (rule I(1))
    show "W2 @ L @ t = [] \<or> \<not> in_class Word (hd (W2 @ L @ t))"
      using W2 L by (cases W2) (auto dest: space_not_word)
    show "match_here (Star Space # Lit L # rs) (W2 @ L @ t) = Some r" by (rule m2)
  qed
  then have m1: "match_here (Plus Word # Star Space # Lit L # rs) (I @ W2 @ L @ t) = Some r" .
  show ?thesis
  proof (rule star_greedy)
    show "\<forall>x\<in>set W. in_class Space x" using W by simp
    show "I @ W2 @ L @ t = [] \<or> \<not> in_class Space (hd (I @ W2 @ L @ t))"
      using I by (cases I) (auto dest: space_not_word)
    show "match_here (Plus Word # Star Space # Lit L # rs) (I @ W2 @ L @ t) = Some r" by (rule m1)
  qed
qed

lemma body_sound:
  assumes "match_here [Plus NotRBrace, Lit ''};''] t = Some r"
  shows "\<exists>B. t = B @ ''};'' @ r \<and> B \<noteq> [] \<and> CHR ''}'' \<notin> set B"
proof -
  from plus_sound [OF assms] obtain B t1 where
    1: "t = B @ t1" "B \<noteq> []" "\<forall>x\<in>set B. in_class NotRBrace x"
    and m1: "match_here [Lit ''};''] t1 = Some r" by blast
  from lit_sound [OF m1] have "t1 = ''};'' @ r" by simp
  with 1 show ?thesis by (intro exI [of _ B]) auto
qed

lemma body_complete:
  assumes "B \<noteq> []" and "CHR ''}'' \<notin> set B"
  shows "match_here [Plus NotRBrace, Lit ''};''] (B @ ''};'' @ r) = Some r"
proof (rule plus_greedy)
  show "\<forall>x\<in>set B. in_class NotRBrace x" using assms(2) by auto
  show "B \<noteq> []" by (rule assms(1))
  show "''};'' @ r = [] \<or> \<not> in_class NotRBrace (hd (''};'' @ r))" by simp
  show "match_here [Lit ''};''] (''};'' @ r) = Some r" by simp
qed

lemma body_extend:
  assumes "match_here [Plus NotRBrace, Lit ''};''] t = Some r"
  shows "match_here [Plus NotRBrace, Lit ''};''] (t @ x) = Some (r @ x)"
proof -
  from body_sound [OF assms] obtain B where
    B: "t = B @ ''};'' @ r" "B \<noteq> []" "CHR ''}'' \<notin> set B" by blast
  from body_complete [OF B(2,3), of "r @ x"] B(1) show ?thesis by simp
qed

lemma nil_extend:
  assumes "match_here [] t = Some r"
  shows "match_here [] (t @ x) = Some (r @ x)"
  using assms by simp

lemma head_extend:
  assumes m: "match_here (Star Space # Plus Word # Star Space # Lit L # rs) b = Some []"
    and L: "L \<noteq> []" "\<not> is_space (hd L)" "\<not> is_word (hd L)"
    and rs: "\<And>t r x. match_here rs t = Some r \<Longrightarrow> match_here rs (t @ x) = Some (r @ x)"
  shows "match_here (Star Space # Plus Word # Star Space # Lit L # rs) (b @ rest) = Some rest"
proof -
  from head_sound [OF m] obtain W I W2 t where
    b: "b = W @ I @ W2 @ L @ t" and W: "\<forall>x\<in>set W. is_space x" and I: "I \<noteq> []" "\<forall>x\<in>set I. is_word x"
    and W2: "\<forall>x\<in>set W2. is_space x" and t: "match_here rs t = Some []" by blast
  from rs [OF t, of rest] have "match_here rs (t @ rest) = Some rest" by simp
  from head_complete [OF W I W2 L this] show ?thesis unfolding b by simp
qed

lemma is_space_NL: "is_space NL"
  by (simp add: is_space_def)

lemma dropWhile_all: "\<forall>x\<in>set A. P x \<Longrightarrow> dropWhile P (A @ t) = dropWhile P t"
  by (induction A) auto

lemma dropWhile_space_lit:
  assumes "\<forall>x\<in>set A. is_space x" and "L \<noteq> []" and "\<not> is_space (hd L)"
  shows "dropWhile is_space (A @ L @ t) = L @ t"
proof -
  from assms(2,3) have "dropWhile is_space (L @ t) = L @ t" by (cases L) auto
  with dropWhile_all [OF assms(1)] show ?thesis by simp
qed

lemma inert_no_match:
  assumes m: "match_here (Star Space # Plus Word # Star Space # Lit L # rs) (u @ rest) = Some r"
    and u: "u \<noteq> []" "\<not> is_space (last u)" "\<not> str_in L u"
    and L: "L \<noteq> []" "\<not> is_space (hd L)" "NL \<notin> set L"
    and g: "guarded L rest"
  shows False
proof -
  from head_sound [OF m] obtain W I W2 t where
    eq: "u @ rest = W @ I @ W2 @ L @ t" and W: "\<forall>x\<in>set W. is_space x"
    and I: "I \<noteq> []" "\<forall>x\<in>set I. is_word x" and W2: "\<forall>x\<in>set W2. is_space x" by blast
  have restD: "hd rest = NL \<and> \<not> prefix L (dropWhile is_space rest)" if "rest \<noteq> []"
    using g that by (simp add: guarded_def)
  from eq consider us where "u = W @ us" "us @ rest = I @ W2 @ L @ t"
    | us where "u @ us = W" "rest = us @ I @ W2 @ L @ t"
    by (auto simp: append_eq_append_conv2)
  then show False
  proof cases
    case 2
    from 2(1) u(1) have "last u \<in> set W"
      by (metis Un_iff last_in_set set_append)
    with W u(2) show False by blast
  next
    case 1
    from 1(2) consider us1 where "us = I @ us1" "us1 @ rest = W2 @ L @ t"
      | us1 where "us @ us1 = I" "rest = us1 @ W2 @ L @ t"
      by (auto simp: append_eq_append_conv2)
    then show False
    proof cases
      case 2
      from 2(2) L(1) have ne: "rest \<noteq> []" by simp
      show False
      proof (cases us1)
        case Nil
        with 2(2) have "dropWhile is_space rest = L @ t"
          using dropWhile_space_lit [OF W2 L(1,2)] by simp
        with restD [OF ne] show False by simp
      next
        case (Cons a as)
        with 2(2) have "hd rest = a" by simp
        moreover from Cons 2(1) have "a \<in> set I" by auto
        ultimately have "is_word NL" using restD [OF ne] I(2) by auto
        with is_space_NL show False by (auto dest: space_not_word)
      qed
    next
      case 1
      note A1 = this
      from A1(2) consider us2 where "us1 = W2 @ us2" "us2 @ rest = L @ t"
        | us2 where "us1 @ us2 = W2" "rest = us2 @ L @ t"
        by (auto simp: append_eq_append_conv2)
      then show False
      proof cases
        case 2
        from 2(2) L(1) have ne: "rest \<noteq> []" by simp
        from 2(1) W2 have "\<forall>x\<in>set us2. is_space x" by auto
        from dropWhile_space_lit [OF this L(1,2)] 2(2)
        have "dropWhile is_space rest = L @ t" by simp
        with restD [OF ne] show False by simp
      next
        case 1
        note A11 = this
        from A11(2) consider us3 where "us2 = L @ us3"
          | us3 where "us2 @ us3 = L" "rest = us3 @ t"
          by (auto simp: append_eq_append_conv2)
        then show False
        proof cases
          case 1
          with \<open>u = W @ us\<close> A1(1) A11(1) have "u = (W @ I @ W2) @ L @ us3" by simp
          then have "str_in L u" unfolding str_in_iff by blast
          with u(3) show False by blast
        next
          case 2
          show False
          proof (cases us3)
            case Nil
            with 2(1) \<open>u = W @ us\<close> A1(1) A11(1) have "u = (W @ I @ W2) @ L @ []" by simp
            then have "str_in L u" unfolding str_in_iff by blast
            with u(3) show False by blast
          next
            case (Cons a as)
            with 2(2) have ne: "rest \<noteq> []" and "hd rest = a" by simp_all
            moreover from Cons 2(1) have "a \<in> set L" by auto
            ultimately show False using restD [OF ne] L(3) by auto
          qed
        qed
      qed
    qed
  qed
qed

lemma scan_inert:
  assumes N: "\<not> str_in L N" "N = [] \<or> \<not> is_space (last N)"
    and L: "L \<noteq> []" "\<not> is_space (hd L)" "NL \<notin> set L"
    and g: "guarded L rest"
  shows "re_sub_del (Star Space # Plus Word # Star Space # Lit L # rs) (N @ rest)
           = N @ re_sub_del (Star Space # Plus Word # Star Space # Lit L # rs) rest"
  using N
proof (induction N)
  case Nil
  show ?case by simp
next
  case (Cons c N)
  let ?p = "Star Space # Plus Word # Star Space # Lit L # rs"
  from Cons.prems(2) have last: "\<not> is_space (last (c # N))" by simp
  have ne: "c # N \<noteq> []" by simp
  have none: "match_here ?p ((c # N) @ rest) = None"
  proof (cases "match_here ?p ((c # N) @ rest)")
    case None
    then show ?thesis .
  next
    case (Some r)
    from inert_no_match [OF Some ne last Cons.prems(1) L g] show ?thesis by simp
  qed
  from Cons.prems(1) have 1: "\<not> str_in L N" by simp
  from last have 2: "N = [] \<or> \<not> is_space (last N)" by (cases N) auto
  have "re_sub_del ?p ((c # N) @ rest) = c # re_sub_del ?p (N @ rest)"
    using none by simp
  with Cons.IH [OF 1 2] show ?case by simp
qed

lemma scan_no_word:
  assumes "\<forall>x\<in>set t. \<not> is_word x"
  shows "re_sub_del (Star Space # Plus Word # Star Space # Lit L # rs) t = t"
  using assms
proof (induction t)
  case Nil
  show ?case by simp
next
  case (Cons c t)
  let ?p = "Star Space # Plus Word # Star Space # Lit L # rs"
  have none: "match_here ?p (c # t) = None"
  proof (cases "match_here ?p (c # t)")
    case None
    then show ?thesis .
  next
    case (Some r)
    from head_sound [OF Some] obtain W I W2 t' where
      eq: "c # t = W @ I @ W2 @ L @ t'" and I: "I \<noteq> []" "\<forall>x\<in>set I. is_word x" by blast
    from I(1) have "hd I \<in> set I" by simp
    moreover from eq I(1) have "hd I \<in> set (c # t)"
      by (metis Un_iff hd_in_set set_append)
    ultimately show ?thesis using Cons.prems I(2) by blast
  qed
  from Cons.prems have "\<forall>x\<in>set t. \<not> is_word x" by simp
  from Cons.IH [OF this] none show ?case by simp
qed

lemma scan_decl:
  assumes m: "match_here (Star Space # Plus Word # Star Space # Lit L # rs) b = Some []"
    and L: "L \<noteq> []" "\<not> is_space (hd L)" "\<not> is_word (hd L)"
    and rs: "\<And>t r x. match_here rs t = Some r \<Longrightarrow> match_here rs (t @ x) = Some (r @ x)"
  shows "re_sub_del (Star Space # Plus Word # Star Space # Lit L # rs) (b @ rest)
           = re_sub_del (Star Space # Plus Word # Star Space # Lit L # rs) rest"
proof -
  let ?p = "Star Space # Plus Word # Star Space # Lit L # rs"
  from head_sound [OF m] obtain W I W2 t where "b = W @ I @ W2 @ L @ t" "I \<noteq> []" by blast
  then have "b \<noteq> []" by simp
  then obtain c cs where b: "b = c # cs" by (cases b) auto
  from head_extend [OF m L rs] have "match_here ?p (b @ rest) = Some rest" by blast
  then show ?thesis unfolding b by simp
qed

lemma guarded_trailer:
  assumes "trailer tr" and "L \<noteq> []"
  shows "guarded L tr"
proof -
  from assms(1) have dw: "dropWhile is_space tr = []" by (simp add: trailer_def)
  have "\<not> prefix L []" using assms(2) by simp
  then have "\<not> prefix L (dropWhile is_space tr)" unfolding dw .
  moreover from assms(1) have "tr = [] \<or> hd tr = NL" by (simp add: trailer_def)
  ultimately show ?thesis unfolding guarded_def by blast
qed

lemma guarded_decl:
  assumes m: "match_here (decl_pat L rs) b = Some []" and hd: "hd b = NL"
    and L: "L \<noteq> []" "\<not> is_word (hd L)"
  shows "guarded L (b @ rest)"
proof -
  from head_sound [OF m] obtain W I W2 t where
    b: "b = W @ I @ W2 @ L @ t" and W: "\<forall>x\<in>set W. is_space x"
    and I: "I \<noteq> []" "\<forall>x\<in>set I. is_word x" by blast
  from I have "\<not> is_space (hd I)" by (cases I) (auto dest: space_not_word)
  with I(1) have "dropWhile is_space (I @ W2 @ L @ t @ rest) = I @ W2 @ L @ t @ rest"
    by (cases I) auto
  with dropWhile_all [OF W, of "I @ W2 @ L @ t @ rest"]
  have dw: "dropWhile is_space (b @ rest) = I @ W2 @ L @ t @ rest" by (simp add: b)
  have "\<not> prefix L (I @ W2 @ L @ t @ rest)"
  proof
    assume "prefix L (I @ W2 @ L @ t @ rest)"
    then obtain zs where "I @ W2 @ L @ t @ rest = L @ zs" by (auto simp: prefix_def)
    with I(1) L(1) have "hd I = hd L" by (cases I; cases L) auto
    with I L(2) show False by (cases I) auto
  qed
  moreover from b I(1) have "b \<noteq> []" by simp
  ultimately show ?thesis using hd dw by (simp add: guarded_def)
qed

lemma guarded_inert:
  assumes i: "inert L b" and ne: "b \<noteq> []" and hd: "hd b = NL"
    and L: "NL \<notin> set L"
    and g: "guarded L rest"
  shows "guarded L (b @ rest)"
proof -
  from i ne have last: "\<not> is_space (last b)" and notin: "\<not> str_in L b"
    by (simp_all add: inert_def)
  from ne have "last b \<in> set b" by simp
  with last have dw: "dropWhile is_space (b @ rest) = dropWhile is_space b @ rest"
    by (metis dropWhile_append1)
  have "\<not> prefix L (dropWhile is_space b @ rest)"
  proof
    assume "prefix L (dropWhile is_space b @ rest)"
    then have "prefix L (dropWhile is_space b)
        \<or> (\<exists>us. L = dropWhile is_space b @ us \<and> prefix us rest)"
      by (simp add: prefix_append)
    then consider "prefix L (dropWhile is_space b)"
      | us where "L = dropWhile is_space b @ us" "prefix us rest" "us \<noteq> []"
    proof (elim disjE exE conjE)
      assume "prefix L (dropWhile is_space b)"
      then show ?thesis by (rule that(1))
    next
      fix us
      assume us: "L = dropWhile is_space b @ us" "prefix us rest"
      show ?thesis
      proof (cases "us = []")
        case True
        with us(1) have "prefix L (dropWhile is_space b)" by simp
        then show ?thesis by (rule that(1))
      next
        case False
        with us show ?thesis by (rule that(2))
      qed
    qed
    then show False
    proof cases
      case 1
      then obtain zs where "dropWhile is_space b = L @ zs" by (auto simp: prefix_def)
      then have "b = takeWhile is_space b @ L @ zs"
        by (metis takeWhile_dropWhile_id)
      then have "str_in L b" unfolding str_in_iff by blast
      with notin show False by blast
    next
      case 2
      from 2(2,3) have ne': "rest \<noteq> []" and "hd rest = hd us"
        by (auto simp: prefix_def)
      moreover from 2(1,3) have "hd us \<in> set L" by (cases us) auto
      ultimately show False using g L by (auto simp: guarded_def)
    qed
  qed
  with ne hd dw show ?thesis by (simp add: guarded_def)
qed

lemma pass_blocks:
  assumes L: "L \<noteq> []" "\<not> is_space (hd L)" "\<not> is_word (hd L)" "NL \<notin> set L"
    and rs: "\<And>t r x. match_here rs t = Some r \<Longrightarrow> match_here rs (t @ x) = Some (r @ x)"
    and tr: "trailer tr"
    and bs: "\<forall>b\<in>set bs. b \<noteq> [] \<and> hd b = NL \<and> (whole_decl (decl_pat L rs) b \<or> inert L b)"
  shows "re_sub_del (decl_pat L rs) (concat bs @ tr)
           = concat (filter (\<lambda>b. \<not> whole_decl (decl_pat L rs) b) bs) @ tr
         \<and> guarded L (concat bs @ tr)"
  using bs
proof (induction bs)
  case Nil
  from tr have "\<forall>x\<in>set tr. \<not> is_word x"
    by (auto simp: trailer_def dest: space_not_word)
  from scan_no_word [OF this] guarded_trailer [OF tr L(1)] show ?case by simp
next
  case (Cons b bs)
  let ?p = "decl_pat L rs"
  let ?rest = "concat bs @ tr"
  from Cons.prems have b: "b \<noteq> []" "hd b = NL" "whole_decl ?p b \<or> inert L b"
    and bs: "\<forall>b\<in>set bs. b \<noteq> [] \<and> hd b = NL \<and> (whole_decl ?p b \<or> inert L b)" by simp_all
  from Cons.IH [OF bs] have
    IH: "re_sub_del ?p ?rest = concat (filter (\<lambda>b. \<not> whole_decl ?p b) bs) @ tr"
    and g: "guarded L ?rest" by blast+
  show ?case
  proof (cases "whole_decl ?p b")
    case True
    then have m: "match_here ?p b = Some []" by (simp add: whole_decl_def)
    from scan_decl [OF m L(1,2,3) rs] have "re_sub_del ?p (b @ ?rest) = re_sub_del ?p ?rest"
      by blast
    moreover from guarded_decl [OF m b(2) L(1,3)] have "guarded L (b @ ?rest)" .
    ultimately show ?thesis using True IH by simp
  next
    case False
    with b(3) have i: "inert L b" by blast
    then have "\<not> str_in L b" "b = [] \<or> \<not> is_space (last b)" by (simp_all add: inert_def)
    from scan_inert [OF this L(1,2,4) g]
    have "re_sub_del ?p (b @ ?rest) = b @ re_sub_del ?p ?rest" .
    moreover from guarded_inert [OF i b(1,2) L(4) g] have "guarded L (b @ ?rest)" .
    ultimately show ?thesis using False IH by simp
  qed
qed

lemma pass_document:
  assumes L: "L \<noteq> []" "\<not> is_space (hd L)" "\<not> is_word (hd L)" "NL \<notin> set L"
    and rs: "\<And>t r x. match_here rs t = Some r \<Longrightarrow> match_here rs (t @ x) = Some (r @ x)"
    and h: "inert L h"
    and tr: "trailer tr"
    and bs: "\<forall>b\<in>set bs. b \<noteq> [] \<and> hd b = NL \<and> (whole_decl (decl_pat L rs) b \<or> inert L b)"
  shows "re_sub_del (decl_pat L rs) (h @ concat bs @ tr)
           = h @ concat (filter (\<lambda>b. \<not> whole_decl (decl_pat L rs) b) bs) @ tr"
proof -
  from pass_blocks [OF L rs tr bs] have
    1: "re_sub_del (decl_pat L rs) (concat bs @ tr)
          = concat (filter (\<lambda>b. \<not> whole_decl (decl_pat L rs) b) bs) @ tr"
    and g: "guarded L (concat bs @ tr)" by blast+
  from h have "\<not> str_in L h" "h = [] \<or> \<not> is_space (last h)" by (simp_all add: inert_def)
  from scan_inert [OF this L(1,2,4) g] 1 show ?thesis by simp
qed

lemma build_file_pattern_eq:
  "build_file_pattern f = decl_pat (build_file_text f) [Plus NotRBrace, Lit ''};'']"
  by (simp add: build_file_pattern_def build_file_text_def)

lemma file_ref_pattern_eq:
  "file_ref_pattern f = decl_pat (file_ref_text f) [Plus NotRBrace, Lit ''};'']"
  by (simp add: file_ref_pattern_def file_ref_text_def)

lemma build_phase_pattern_eq:
  "build_phase_pattern f = decl_pat (build_phase_text f) []"
  by (simp add: build_phase_pattern_def build_phase_text_def)

lemma slash_class: "\<not> is_space (CHR ''/'')" "\<not> is_word (CHR ''/'')"
  by (simp_all add: is_space_def is_word_def)

lemma text_props:
  "build_file_text f \<noteq> []" "hd (build_file_text f) = CHR ''/''"
  "file_ref_text f \<noteq> []" "hd (file_ref_text f) = CHR ''/''"
  "build_phase_text f \<noteq> []" "hd (build_phase_text f) = CHR ''/''"
  by (simp_all add: build_file_text_def file_ref_text_def build_phase_text_def)

lemma text_no_NL:
  assumes "NL \<notin> set f"
  shows "NL \<notin> set (build_file_text f)" "NL \<notin> set (file_ref_text f)"
    "NL \<notin> set (build_phase_text f)"
  using assms by (simp_all add: build_file_text_def file_ref_text_def build_phase_text_def)

lemma pass_build_file:
  assumes "NL \<notin> set f" and "inert (build_file_text f) h" and "trailer tr"
    and "\<forall>b\<in>set bs. b \<noteq> [] \<and> hd b = NL
           \<and> (whole_decl (build_file_pattern f) b \<or> inert (build_file_text f) b)"
  shows "re_sub_del (build_file_pattern f) (h @ concat bs @ tr)
           = h @ concat (filter (\<lambda>b. \<not> whole_decl (build_file_pattern f) b) bs) @ tr"
  unfolding build_file_pattern_eq
proof (rule pass_document)
  show "build_file_text f \<noteq> []" by (rule text_props)
  show "\<not> is_space (hd (build_file_text f))" by (simp add: text_props slash_class)
  show "\<not> is_word (hd (build_file_text f))" by (simp add: text_props slash_class)
  show "NL \<notin> set (build_file_text f)" using assms(1) by (rule text_no_NL)
  show "match_here [Plus NotRBrace, Lit ''};''] (t @ x) = Some (r @ x)"
    if "match_here [Plus NotRBrace, Lit ''};''] t = Some r" for t r x
    using that by (rule body_extend)
  show "inert (build_file_text f) h" by (rule assms(2))
  show "trailer tr" by (rule assms(3))
  show "\<forall>b\<in>set bs. b \<noteq> [] \<and> hd b = NL
          \<and> (whole_decl (decl_pat (build_file_text f) [Plus NotRBrace, Lit ''};'']) b
              \<or> inert (build_file_text f) b)"
    using assms(4) unfolding build_file_pattern_eq .
qed

lemma pass_file_ref:
  assumes "NL \<notin> set f" and "inert (file_ref_text f) h" and "trailer tr"
    and "\<forall>b\<in>set bs. b \<noteq> [] \<and> hd b = NL
           \<and> (whole_decl (file_ref_pattern f) b \<or> inert (file_ref_text f) b)"
  shows "re_sub_del (file_ref_pattern f) (h @ concat bs @ tr)
           = h @ concat (filter (\<lambda>b. \<not> whole_decl (file_ref_pattern f) b) bs) @ tr"
  unfolding file_ref_pattern_eq
proof (rule pass_document)
  show "file_ref_text f \<noteq> []" by (rule text_props)
  show "\<not> is_space (hd (file_ref_text f))" by (simp add: text_props slash_class)
  show "\<not> is_word (hd (file_ref_text f))" by (simp add: text_props slash_class)
  show "NL \<notin> set (file_ref_text f)" using assms(1) by (rule text_no_NL)
  show "match_here [Plus NotRBrace, Lit ''};''] (t @ x) = Some (r @ x)"
    if "match_here [Plus NotRBrace, Lit ''};''] t = Some r" for t r x
    using that by (rule body_extend)
  show "inert (file_ref_text f) h" by (rule assms(2))
  show "trailer tr" by (rule assms(3))
  show "\<forall>b\<in>set bs. b \<noteq> [] \<and> hd b = NL
          \<and> (whole_decl (decl_pat (file_ref_text f) [Plus NotRBrace, Lit ''};'']) b
              \<or> inert (file_ref_text f) b)"
    using assms(4) unfolding file_ref_pattern_eq .
qed

lemma pass_build_phase:
  assumes "NL \<notin> set f" and "inert (build_phase_text f) h" and "trailer tr"
    and "\<forall>b\<in>set bs. b \<noteq> [] \<and> hd b = NL
           \<and> (whole_decl (build_phase_pattern f) b \<or> inert (build_phase_text f) b)"
  shows "re_sub_del (build_phase_pattern f) (h @ concat bs @ tr)
           = h @ concat (filter (\<lambda>b. \<not> whole_decl (build_phase_pattern f) b) bs) @ tr"
  unfolding build_phase_pattern_eq
proof (rule pass_document)
  show "build_phase_text f \<noteq> []" by (rule text_props)
  show "\<not> is_space (hd (build_phase_text f))" by (simp add: text_props slash_class)
  show "\<not> is_word (hd (build_phase_text f))" by (simp add: text_props slash_class)
  show "NL \<notin> set (build_phase_text f)" using assms(1) by (rule text_no_NL)
  show "match_here [] (t @ x) = Some (r @ x)" if "match_here [] t = Some r" for t r x
    using that by simp
  show "inert (build_phase_text f) h" by (rule assms(2))
  show "trailer tr" by (rule assms(3))
  show "\<forall>b\<in>set bs. b \<noteq> [] \<and> hd b = NL
          \<and> (whole_decl (decl_pat (build_phase_text f) []) b \<or> inert (build_phase_text f) b)"
    using assms(4) unfolding build_phase_pattern_eq .
qed

lemma remove_old_file_laid_out:
  assumes f: "NL \<notin> set f" and lo: "laid_out f h bs tr"
  shows "remove_old_file f (h @ concat bs @ tr)
           = h @ concat (filter (\<lambda>b. \<not> stale_block f b) bs) @ tr"
proof -
  let ?w1 = "whole_decl (build_file_pattern f)"
  let ?w2 = "whole_decl (file_ref_pattern f)"
  let ?w3 = "whole_decl (build_phase_pattern f)"
  let ?bs1 = "filter (\<lambda>b. \<not> ?w1 b) bs"
  let ?bs2 = "filter (\<lambda>b. \<not> ?w2 b) ?bs1"
  let ?bs3 = "filter (\<lambda>b. \<not> ?w3 b) ?bs2"
  from lo have h: "inert (build_file_text f) h" "inert (file_ref_text f) h"
      "inert (build_phase_text f) h"
    and tr: "trailer tr" and ok: "\<forall>b\<in>set bs. block_ok f b"
    by (simp_all add: laid_out_def)
  have 1: "re_sub_del (build_file_pattern f) (h @ concat bs @ tr) = h @ concat ?bs1 @ tr"
    using f h(1) tr
  proof (rule pass_build_file)
    show "\<forall>b\<in>set bs. b \<noteq> [] \<and> hd b = NL \<and> (?w1 b \<or> inert (build_file_text f) b)"
      using ok by (auto simp: block_ok_def)
  qed
  have 2: "re_sub_del (file_ref_pattern f) (h @ concat ?bs1 @ tr) = h @ concat ?bs2 @ tr"
    using f h(2) tr
  proof (rule pass_file_ref)
    show "\<forall>b\<in>set ?bs1. b \<noteq> [] \<and> hd b = NL \<and> (?w2 b \<or> inert (file_ref_text f) b)"
      using ok by (auto simp: block_ok_def)
  qed
  have 3: "re_sub_del (build_phase_pattern f) (h @ concat ?bs2 @ tr) = h @ concat ?bs3 @ tr"
    using f h(3) tr
  proof (rule pass_build_phase)
    show "\<forall>b\<in>set ?bs2. b \<noteq> [] \<and> hd b = NL \<and> (?w3 b \<or> inert (build_phase_text f) b)"
      using ok by (auto simp: block_ok_def)
  qed
  have "?bs3 = filter (\<lambda>b. \<not> stale_block f b) bs"
    by (auto simp: stale_block_def intro: filter_cong)
  with 1 2 3 show ?thesis by (simp add: remove_old_file_def)
qed

lemma laid_out_filter:
  "laid_out f h bs tr \<Longrightarrow> laid_out f h (filter P bs) tr"
  by (simp add: laid_out_def)

lemma match_here_length: "match_here p s = Some r \<Longrightarrow> length r \<le> length s"
proof (induction p arbitrary: s)
  case Nil
  then show ?case by simp
next
  case (Cons it its)
  show ?case
  proof (cases it)
    case (Lit l)
    with Cons.prems lit_sound obtain t where "s = l @ t" "match_here its t = Some r" by blast
    with Cons.IH [of t] show ?thesis by simp
  next
    case (Star c)
    with Cons.prems star_sound obtain A t where "s = A @ t" "match_here its t = Some r" by blast
    with Cons.IH [of t] show ?thesis by simp
  next
    case (Plus c)
    with Cons.prems plus_sound obtain A t where "s = A @ t" "match_here its t = Some r" by blast
    with Cons.IH [of t] show ?thesis by simp
  qed
qed

lemma re_sub_del_length: "length (re_sub_del p s) \<le> length s"
proof (induction p s rule: re_sub_del.induct)
  case (1 p)
  show ?case by simp
next
  case (2 p c cs)
  show ?case
  proof (cases "match_here p (c # cs)")
    case None
    with "2.IH" show ?thesis by simp
  next
    case (Some r)
    show ?thesis
    proof (cases "length r < length (c # cs)")
      case True
      with Some "2.IH" have "length (re_sub_del p r) \<le> length r" by simp
      with Some True show ?thesis by simp
    next
      case False
      with Some "2.IH" have "length (re_sub_del p cs) \<le> length cs" by simp
      with Some False show ?thesis by simp
    qed
  qed
qed

lemma re_sub_del_fix: "\<not> has_match p s \<Longrightarrow> re_sub_del p s = s"
  by (induction s) (auto split: option.splits)

lemma re_sub_del_same_length: "length (re_sub_del p s) = length s \<Longrightarrow> \<not> has_match p s"
proof (induction s)
  case Nil
  show ?case by simp
next
  case (Cons c cs)
  show ?case
  proof (cases "match_here p (c # cs)")
    case None
    with Cons show ?thesis by simp
  next
    case (Some r)
    show ?thesis
    proof (cases "length r < length (c # cs)")
      case True
      have "length (re_sub_del p r) \<le> length r" by (rule re_sub_del_length)
      with Some True Cons.prems show ?thesis by simp
    next
      case False
      with Some Cons show ?thesis by simp
    qed
  qed
qed

lemma re_sub_del_fix_iff: "re_sub_del p s = s \<longleftrightarrow> \<not> has_match p s"
  using re_sub_del_fix [of p s] re_sub_del_same_length [of p s] by auto

lemma remove_old_file_length: "length (remove_old_file f s) \<le> length s"
proof -
  let ?s1 = "re_sub_del (build_file_pattern f) s"
  let ?s2 = "re_sub_del (file_ref_pattern f) ?s1"
  have "length (re_sub_del (build_phase_pattern f) ?s2) \<le> length ?s2"
    by (rule re_sub_del_length)
  also have "\<dots> \<le> length ?s1" by (rule re_sub_del_length)
  also have "\<dots> \<le> length s" by (rule re_sub_del_length)
  finally show ?thesis by (simp add: remove_old_file_def)
qed

lemma remove_old_file_same_length:
  assumes "length (remove_old_file f s) = length s"
  shows "no_stale_decl f s"
proof -
  let ?s1 = "re_sub_del (build_file_pattern f) s"
  let ?s2 = "re_sub_del (file_ref_pattern f) ?s1"
  let ?s3 = "re_sub_del (build_phase_pattern f) ?s2"
  have le: "length ?s3 \<le> length ?s2" "length ?s2 \<le> length ?s1" "length ?s1 \<le> length s"
    by (rule re_sub_del_length)+
  from assms have "length ?s3 = length s" by (simp add: remove_old_file_def)
  with le have l1: "length ?s1 = length s" and l2: "length ?s2 = length ?s1"
    and l3: "length ?s3 = length ?s2" by linarith+
  from l1 have n1: "\<not> has_match (build_file_pattern f) s" by (rule re_sub_del_same_length)
  then have e1: "?s1 = s" by (rule re_sub_del_fix)
  from l2 have "\<not> has_match (file_ref_pattern f) ?s1" by (rule re_sub_del_same_length)
  with e1 have n2: "\<not> has_match (file_ref_pattern f) s" by simp
  then have e2: "?s2 = s" using e1 by (simp add: re_sub_del_fix)
  from l3 have "\<not> has_match (build_phase_pattern f) ?s2" by (rule re_sub_del_same_length)
  with e2 have n3: "\<not> has_match (build_phase_pattern f) s" by simp
  from n1 n2 n3 show ?thesis by (simp add: no_stale_decl_def)
qed

lemma remove_old_file_fix: "no_stale_decl f s \<Longrightarrow> remove_old_file f s = s"
  by (simp add: no_stale_decl_def remove_old_file_def re_sub_del_fix)

lemma remove_old_file_fix_iff: "remove_old_file f s = s \<longleftrightarrow> no_stale_decl f s"
  using remove_old_file_fix [of f s] remove_old_file_same_length [of f s] by auto

lemma remove_old_files_Cons:
  "remove_old_files (f # fs) s = remove_old_files fs (remove_old_file f s)"
  by (simp add: remove_old_files_def)

lemma remove_old_files_length: "length (remove_old_files fs s) \<le> length s"
proof (induction fs arbitrary: s)
  case Nil
  show ?case by (simp add: remove_old_files_def)
next
  case (Cons f fs)
  have "length (remove_old_files fs (remove_old_file f s)) \<le> length (remove_old_file f s)"
    by (rule Cons.IH)
  also have "\<dots> \<le> length s" by (rule remove_old_file_length)
  finally show ?case by (simp add: remove_old_files_Cons)
qed

lemma remove_old_files_fix_iff:
  "remove_old_files fs s = s \<longleftrightarrow> (\<forall>f\<in>set fs. no_stale_decl f s)"
proof (induction fs)
  case Nil
  show ?case by (simp add: remove_old_files_def)
next
  case (Cons f fs)
  show ?case
  proof
    assume eq: "remove_old_files (f # fs) s = s"
    have "length s = length (remove_old_files fs (remove_old_file f s))"
      using eq by (simp add: remove_old_files_Cons)
    also have "\<dots> \<le> length (remove_old_file f s)" by (rule remove_old_files_length)
    finally have "length (remove_old_file f s) = length s"
      using remove_old_file_length [of f s] by linarith
    then have n: "no_stale_decl f s" by (rule remove_old_file_same_length)
    then have "remove_old_file f s = s" by (rule remove_old_file_fix)
    with eq have "remove_old_files fs s = s" by (simp add: remove_old_files_Cons)
    with Cons.IH n show "\<forall>f\<in>set (f # fs). no_stale_decl f s" by simp
  next
    assume all: "\<forall>f\<in>set (f # fs). no_stale_decl f s"
    then have "remove_old_file f s = s" by (simp add: remove_old_file_fix)
    moreover from all Cons.IH have "remove_old_files fs s = s" by simp
    ultimately show "remove_old_files (f # fs) s = s" by (simp add: remove_old_files_Cons)
  qed
qed

lemma laid_out_removed_clean:
  assumes f: "NL \<notin> set f" and lo: "laid_out f h bs tr"
  shows "no_stale_decl f (h @ concat (filter (\<lambda>b. \<not> stale_block f b) bs) @ tr)"
proof -
  let ?bs = "filter (\<lambda>b. \<not> stale_block f b) bs"
  from lo have "laid_out f h ?bs tr" by (rule laid_out_filter)
  from remove_old_file_laid_out [OF f this]
  have "remove_old_file f (h @ concat ?bs @ tr) = h @ concat ?bs @ tr" by simp
  then show ?thesis by (simp only: remove_old_file_fix_iff)
qed

section \<open>Insertion before the anchor\<close>

text \<open>
  Claim C7. For every document that contains the anchor and does not contain
  \<^verbatim>\<open>Foo.swift\<close>, the insertion step with the single entry
  \<^verbatim>\<open>('Foo.swift', 'XYZ123')\<close> puts the new declaration line immediately before the first
  occurrence of the anchor text, and nothing else changes: the text before the anchor and
  the text from the anchor on are those of the original document.
\<close>

theorem insertion_anchoring:
  assumes "str_in anchor D" and "\<not> str_in ''Foo.swift'' D"
  shows "\<exists>pre post. D = pre @ anchor @ post \<and> str_find anchor D = int (length pre) \<and>
           add_new_files [(''Foo.swift'', ''XYZ123'')] D =
             pre @ ([TAB, TAB] @ ''XYZ123_BUILD /* Foo.swift in Sources */ = {isa = PBXBuildFile; fileRef = XYZ123 /* Foo.swift */; };'' @ [NL])
               @ anchor @ post"
proof -
  from str_find_present [OF assms(1)] obtain pre post where
    eq: "D = pre @ anchor @ post" and pos: "str_find anchor D = int (length pre)" by blast
  have entry: "build_entry ''Foo.swift'' ''XYZ123'' =
     [TAB, TAB] @ ''XYZ123_BUILD /* Foo.swift in Sources */ = {isa = PBXBuildFile; fileRef = XYZ123 /* Foo.swift */; };'' @ [NL]"
    by (simp add: build_entry_def)
  have "add_new_files [(''Foo.swift'', ''XYZ123'')] D =
        slice_to D (int (length pre)) @ build_entry ''Foo.swift'' ''XYZ123''
          @ slice_from D (int (length pre))"
    using assms(2) pos by (simp add: add_new_files_def insert_entry_def Let_def)
  also have "\<dots> = pre @ build_entry ''Foo.swift'' ''XYZ123'' @ anchor @ post"
    unfolding eq by (simp only: slice_to_nat slice_from_nat)
  finally show ?thesis using eq pos unfolding entry by blast
qed

theorem insertion_anchoring_witness:
  "\<exists>pre post. ''{'' @ anchor @ ''}'' = pre @ anchor @ post \<and>
     str_find anchor (''{'' @ anchor @ ''}'') = int (length pre) \<and>
     add_new_files [(''Foo.swift'', ''XYZ123'')] (''{'' @ anchor @ ''}'') =
       pre @ ([TAB, TAB] @ ''XYZ123_BUILD /* Foo.swift in Sources */ = {isa = PBXBuildFile; fileRef = XYZ123 /* Foo.swift */; };'' @ [NL])
         @ anchor @ post"
proof -
  have 1: "str_in anchor (''{'' @ anchor @ ''}'')"
    unfolding str_in_iff by blast
  have 2: "\<not> str_in ''Foo.swift'' (''{'' @ anchor @ ''}'')"
    by (simp add: anchor_def)
  from insertion_anchoring [OF 1 2] show ?thesis .
qed

section \<open>The run of the script\<close>

text \<open>
  Claim C8. When the project file is missing or cannot be read, the run ends with an
  I/O error at the read: the world is returned as it was, so the file is unchanged and
  the trace holds no print and no write.
\<close>

theorem read_failure_leaves_file:
  assumes "project_file w = None"
  shows "main w = (Inl IOError, w) \<and> main_with olds news w = (Inl IOError, w)"
  using assms by (simp add: main_def main_with_def read_file_def)

theorem read_failure_leaves_file_witness:
  "main \<lparr>project_file = None, writable = True, trace = []\<rparr>
     = (Inl IOError, \<lparr>project_file = None, writable = True, trace = []\<rparr>)
   \<and> main_with [] [] \<lparr>project_file = None, writable = True, trace = []\<rparr>
     = (Inl IOError, \<lparr>project_file = None, writable = True, trace = []\<rparr>)"
  using read_failure_leaves_file [of "\<lparr>project_file = None, writable = True, trace = []\<rparr>" "[]" "[]"]
  by simp

text \<open>
  Claim C9. The script prints \<^verbatim>\<open>Fixed project file!\<close> before it opens the file for
  writing. On a readable and writable file the trace is read, print, write; on a readable
  file that cannot be written the message is printed and the run then ends with an I/O
  error, the file unchanged.
\<close>

theorem print_precedes_write:
  "trace (snd (main \<lparr>project_file = Some ''x'', writable = True, trace = []\<rparr>))
     = [EvRead, EvPrint ''Fixed project file!'', EvWrite (patch_with old_files new_files ''x'')]
   \<and> main \<lparr>project_file = Some ''x'', writable = False, trace = []\<rparr>
     = (Inl IOError,
        \<lparr>project_file = Some ''x'', writable = False,
         trace = [EvRead, EvPrint ''Fixed project file!'']\<rparr>)"
  by (simp add: main_def main_with_def read_file_def print_line_def write_file_def Let_def)

section \<open>The removal step\<close>

subsection \<open>Removal on laid-out documents\<close>

lemma remove_old_files_laid_out:
  assumes "\<forall>f\<in>set fs. NL \<notin> set f \<and> laid_out f h bs tr"
  shows "remove_old_files fs (h @ concat bs @ tr)
           = h @ concat (filter (\<lambda>b. \<forall>f\<in>set fs. \<not> stale_block f b) bs) @ tr"
  using assms
proof (induction fs arbitrary: bs)
  case Nil
  show ?case by (simp add: remove_old_files_def)
next
  case (Cons f fs)
  let ?bs1 = "filter (\<lambda>b. \<not> stale_block f b) bs"
  from Cons.prems have f: "NL \<notin> set f" "laid_out f h bs tr" by simp_all
  from Cons.prems have "\<forall>g\<in>set fs. NL \<notin> set g \<and> laid_out g h ?bs1 tr"
    by (simp add: laid_out_filter)
  from Cons.IH [OF this]
  have "remove_old_files fs (h @ concat ?bs1 @ tr)
          = h @ concat (filter (\<lambda>b. \<forall>g\<in>set fs. \<not> stale_block g b) ?bs1) @ tr" .
  moreover have "filter (\<lambda>b. \<forall>g\<in>set fs. \<not> stale_block g b) ?bs1
                   = filter (\<lambda>b. \<forall>g\<in>set (f # fs). \<not> stale_block g b) bs"
    by (auto intro: filter_cong)
  ultimately show ?case
    using remove_old_file_laid_out [OF f] by (simp add: remove_old_files_Cons)
qed

lemma remove_old_files_laid_out_clean:
  assumes all: "\<forall>f\<in>set fs. NL \<notin> set f \<and> laid_out f h bs tr" and g: "g \<in> set fs"
  shows "no_stale_decl g (remove_old_files fs (h @ concat bs @ tr))"
proof -
  let ?bs = "filter (\<lambda>b. \<forall>f\<in>set fs. \<not> stale_block f b) bs"
  from all g have nl: "NL \<notin> set g" and lo: "laid_out g h ?bs tr"
    by (simp_all add: laid_out_filter)
  have "filter (\<lambda>b. \<not> stale_block g b) ?bs = ?bs"
    using g by (intro filter_True) auto
  with remove_old_file_laid_out [OF nl lo]
  have "remove_old_file g (h @ concat ?bs @ tr) = h @ concat ?bs @ tr" by simp
  then have "no_stale_decl g (h @ concat ?bs @ tr)" by (simp only: remove_old_file_fix_iff)
  then show ?thesis by (simp only: remove_old_files_laid_out [OF all])
qed

subsection \<open>The two documents with joined text\<close>

lemma joined_once: "remove_old_file ''F'' joined_doc = ''X /* F in Sources */,''"
  by code_simp

lemma joined_twice: "remove_old_file ''F'' ''X /* F in Sources */,'' = []"
  by code_simp

lemma two_file_A: "remove_old_file ''A'' two_file_doc = ''X /* B in Sources */,''"
  by code_simp

lemma two_file_AB: "remove_old_file ''B'' ''X /* B in Sources */,'' = []"
  by code_simp

lemma two_file_B: "remove_old_file ''B'' two_file_doc = two_file_doc"
  by code_simp

lemma small_laid_out_F: "laid_out ''F'' ''h'' small_blocks [NL]"
  by code_simp

lemma small_stale_F:
  "filter (\<lambda>b. \<not> stale_block ''F'' b) small_blocks = [[NL] @ ''x'']"
  by code_simp

lemma pair_laid_out_A: "laid_out ''A'' ''h'' pair_blocks [NL]"
  by code_simp

lemma pair_laid_out_B: "laid_out ''B'' ''h'' pair_blocks [NL]"
  by code_simp

lemma pair_stale_A:
  "filter (\<lambda>b. \<not> stale_block ''A'' b) pair_blocks
     = [[NL] @ ''J /* B in Sources */,'', [NL] @ ''x'']"
  by code_simp

lemma pair_stale_B:
  "filter (\<lambda>b. \<not> stale_block ''B'' b) pair_blocks
     = [[NL] @ ''I /* A in Sources */,'', [NL] @ ''x'']"
  by code_simp

lemma pair_stale_AB:
  "filter (\<lambda>b. \<not> stale_block ''A'' b \<and> \<not> stale_block ''B'' b) pair_blocks = [[NL] @ ''x'']"
  by code_simp

subsection \<open>Idempotence\<close>

text \<open>
  Claim C3, as stated: removing twice gives the same as removing once, for every
  document and every list. It fails for the document
  \<^verbatim>\<open>X Y /* F in Sources */, /* F in Sources */,\<close>: the first run deletes
  \<^verbatim>\<open> Y /* F in Sources */,\<close>, which joins \<^verbatim>\<open>X\<close> to the text after it into a new
  build-phase line, and the second run deletes that line.
\<close>

theorem removal_twice_differs:
  "remove_old_files [''F''] (remove_old_files [''F''] joined_doc)
     \<noteq> remove_old_files [''F''] joined_doc"
  by (simp add: remove_old_files_def joined_once joined_twice)

text \<open>
  Claim C3, amended. For every document and every list of stale file names, removing
  twice gives the same as removing once exactly when the document left by the first run
  holds no match of any of the three patterns of any listed file name.
\<close>

theorem removal_idempotent_iff:
  "remove_old_files L (remove_old_files L D) = remove_old_files L D
     \<longleftrightarrow> (\<forall>f\<in>set L. no_stale_decl f (remove_old_files L D))"
  by (rule remove_old_files_fix_iff)

theorem removal_idempotent_iff_witness:
  "remove_old_files [''F''] (remove_old_files [''F''] ''X /* F in Sources */,'')
     = remove_old_files [''F''] ''X /* F in Sources */,''
   \<and> no_stale_decl ''F'' (remove_old_files [''F''] ''X /* F in Sources */,'')"
proof -
  have r: "remove_old_files [''F''] ''X /* F in Sources */,'' = []"
    by (simp add: remove_old_files_def joined_twice)
  have ns: "no_stale_decl ''F'' []" by (simp add: no_stale_decl_def)
  then have all: "\<forall>f\<in>set [''F'']. no_stale_decl f (remove_old_files [''F''] ''X /* F in Sources */,'')"
    by (simp add: r)
  from iffD2 [OF removal_idempotent_iff all] ns r show ?thesis by simp
qed

subsection \<open>Completeness\<close>

text \<open>
  Claim C5, as stated: after the removal step no occurrence of a stale file name in any
  of the three shapes is left, for every document. It fails for the same document: the
  file name \<^verbatim>\<open>F\<close> occurs in it in the build-phase shape, and it still does after the
  removal step.
\<close>

theorem removal_leaves_occurrence:
  "has_match (build_phase_pattern ''F'') joined_doc
   \<and> \<not> no_stale_decl ''F'' (remove_old_files [''F''] joined_doc)"
proof -
  have 1: "has_match (build_phase_pattern ''F'') joined_doc" by code_simp
  have 2: "has_match (build_phase_pattern ''F'') ''X /* F in Sources */,''" by code_simp
  from 1 2 show ?thesis
    by (simp add: remove_old_files_def joined_once no_stale_decl_def)
qed

text \<open>
  Claim C5, amended. Take a list of stale file names, none of which contains a line
  break, and a document made of a header \<open>h\<close>, then blocks \<open>bs\<close>, then a trailer \<open>tr\<close>,
  such that for every listed file name \<open>f\<close>, with its three literal texts
  \<^verbatim>\<open>/* f in Sources */ = {\<close>, \<^verbatim>\<open>/* f */ = {\<close> and \<^verbatim>\<open>/* f in Sources */,\<close>:

    \<^item> the header contains none of the three literal texts, and it is empty or its last
      character is not white space;

    \<^item> the trailer is white space only, and it is empty or starts with a line break;

    \<^item> every block starts with a line break and is either all of one match of the
      build-file pattern of \<open>f\<close>; or it does not contain the build-file text, does not
      end in white space, and is either all of one match of the file-reference pattern;
      or it does not contain the file-reference text either and is either all of one
      match of the build-phase pattern or does not contain the build-phase text.

  Then the removal step returns the header, the blocks that are not all of one match of
  a pattern of a listed file name, and the trailer; and in that result no pattern of any
  listed file name has a match, so no listed file name occurs in it in any of the three
  shapes.
\<close>

theorem removal_complete_laid_out:
  assumes "\<forall>f\<in>set fs. NL \<notin> set f \<and> laid_out f h bs tr"
  shows "remove_old_files fs (h @ concat bs @ tr)
           = h @ concat (filter (\<lambda>b. \<forall>f\<in>set fs. \<not> stale_block f b) bs) @ tr
         \<and> (\<forall>f\<in>set fs. no_stale_decl f (remove_old_files fs (h @ concat bs @ tr)))"
  using remove_old_files_laid_out [OF assms] remove_old_files_laid_out_clean [OF assms]
  by blast

theorem removal_complete_laid_out_witness:
  "remove_old_files [''F''] (''h'' @ concat small_blocks @ [NL]) = ''h'' @ [NL] @ ''x'' @ [NL]
   \<and> no_stale_decl ''F'' (remove_old_files [''F''] (''h'' @ concat small_blocks @ [NL]))"
proof -
  have lo: "\<forall>f\<in>set [''F'']. NL \<notin> set f \<and> laid_out f ''h'' small_blocks [NL]"
    using small_laid_out_F by simp
  from removal_complete_laid_out [OF lo] have
    1: "remove_old_files [''F''] (''h'' @ concat small_blocks @ [NL])
          = ''h'' @ concat (filter (\<lambda>b. \<forall>f\<in>set [''F'']. \<not> stale_block f b) small_blocks) @ [NL]"
    and 2: "\<forall>f\<in>set [''F'']. no_stale_decl f (remove_old_files [''F''] (''h'' @ concat small_blocks @ [NL]))"
    by blast+
  from 1 have "remove_old_files [''F''] (''h'' @ concat small_blocks @ [NL]) = ''h'' @ [NL] @ ''x'' @ [NL]"
    by (simp add: small_stale_F)
  moreover from 2 have "no_stale_decl ''F'' (remove_old_files [''F''] (''h'' @ concat small_blocks @ [NL]))"
    by simp
  ultimately show ?thesis by blast
qed

subsection \<open>Order of the file names\<close>

text \<open>
  Claim C6, as stated: removal for one file name commutes with removal for another, for
  every document. It fails for \<^verbatim>\<open>X Y /* A in Sources */, /* B in Sources */,\<close>:
  removal for \<^verbatim>\<open>A\<close> makes a build-phase line for \<^verbatim>\<open>B\<close>, which removal for \<^verbatim>\<open>B\<close>
  then deletes; in the other order removal for \<^verbatim>\<open>B\<close> finds nothing.
\<close>

theorem removal_order_matters:
  "remove_old_file ''B'' (remove_old_file ''A'' two_file_doc)
     \<noteq> remove_old_file ''A'' (remove_old_file ''B'' two_file_doc)"
  by (simp add: two_file_A two_file_AB two_file_B)

text \<open>
  Claim C6, amended. Take two stale file names \<open>a\<close> and \<open>b\<close>, neither of which contains
  a line break, and a document made of a header \<open>h\<close>, then blocks \<open>bs\<close>, then a trailer
  \<open>tr\<close>, such that for \<open>f = a\<close> and for \<open>f = b\<close>, with the three literal texts
  \<^verbatim>\<open>/* f in Sources */ = {\<close>, \<^verbatim>\<open>/* f */ = {\<close> and \<^verbatim>\<open>/* f in Sources */,\<close>:

    \<^item> the header contains none of the three literal texts, and it is empty or its last
      character is not white space;

    \<^item> the trailer is white space only, and it is empty or starts with a line break;

    \<^item> every block starts with a line break and is either all of one match of the
      build-file pattern of \<open>f\<close>; or it does not contain the build-file text, does not
      end in white space, and is either all of one match of the file-reference pattern;
      or it does not contain the file-reference text either and is either all of one
      match of the build-phase pattern or does not contain the build-phase text.

  Then the three-pattern removal for \<open>a\<close> and then for \<open>b\<close> gives the same document as
  the removal for \<open>b\<close> and then for \<open>a\<close>: the header, the blocks that are not all of one
  match of a pattern of \<open>a\<close> or of \<open>b\<close>, and the trailer.
\<close>

theorem removal_commutes_laid_out:
  assumes "NL \<notin> set a" and "NL \<notin> set b"
    and "laid_out a h bs tr" and "laid_out b h bs tr"
  shows "remove_old_file b (remove_old_file a (h @ concat bs @ tr))
           = remove_old_file a (remove_old_file b (h @ concat bs @ tr))
         \<and> remove_old_file b (remove_old_file a (h @ concat bs @ tr))
           = h @ concat (filter (\<lambda>x. \<not> stale_block a x \<and> \<not> stale_block b x) bs) @ tr"
proof -
  let ?A = "filter (\<lambda>x. \<not> stale_block a x) bs"
  let ?B = "filter (\<lambda>x. \<not> stale_block b x) bs"
  have ab: "remove_old_file b (remove_old_file a (h @ concat bs @ tr))
              = h @ concat (filter (\<lambda>x. \<not> stale_block b x) ?A) @ tr"
    using remove_old_file_laid_out [OF assms(1,3)]
      remove_old_file_laid_out [OF assms(2) laid_out_filter [OF assms(4)]]
    by simp
  have ba: "remove_old_file a (remove_old_file b (h @ concat bs @ tr))
              = h @ concat (filter (\<lambda>x. \<not> stale_block a x) ?B) @ tr"
    using remove_old_file_laid_out [OF assms(2,4)]
      remove_old_file_laid_out [OF assms(1) laid_out_filter [OF assms(3)]]
    by simp
  have 1: "filter (\<lambda>x. \<not> stale_block b x) ?A
             = filter (\<lambda>x. \<not> stale_block a x \<and> \<not> stale_block b x) bs"
    by (auto intro: filter_cong)
  have 2: "filter (\<lambda>x. \<not> stale_block a x) ?B
             = filter (\<lambda>x. \<not> stale_block a x \<and> \<not> stale_block b x) bs"
    by (auto intro: filter_cong)
  from ab ba 1 2 show ?thesis by simp
qed

theorem removal_commutes_laid_out_witness:
  "remove_old_file ''B'' (remove_old_file ''A'' (''h'' @ concat pair_blocks @ [NL]))
     = remove_old_file ''A'' (remove_old_file ''B'' (''h'' @ concat pair_blocks @ [NL]))
   \<and> remove_old_file ''B'' (remove_old_file ''A'' (''h'' @ concat pair_blocks @ [NL]))
     = ''h'' @ [NL] @ ''x'' @ [NL]
   \<and> remove_old_file ''A'' (''h'' @ concat pair_blocks @ [NL])
     \<noteq> ''h'' @ concat pair_blocks @ [NL]
   \<and> remove_old_file ''B'' (''h'' @ concat pair_blocks @ [NL])
     \<noteq> ''h'' @ concat pair_blocks @ [NL]"
proof -
  have a: "NL \<notin> set ''A''" and b: "NL \<notin> set ''B''" by simp_all
  from removal_commutes_laid_out [OF a b pair_laid_out_A pair_laid_out_B]
  have 1: "remove_old_file ''B'' (remove_old_file ''A'' (''h'' @ concat pair_blocks @ [NL]))
             = remove_old_file ''A'' (remove_old_file ''B'' (''h'' @ concat pair_blocks @ [NL]))"
    and 2: "remove_old_file ''B'' (remove_old_file ''A'' (''h'' @ concat pair_blocks @ [NL]))
             = ''h'' @ concat (filter (\<lambda>x. \<not> stale_block ''A'' x \<and> \<not> stale_block ''B'' x) pair_blocks) @ [NL]"
    by blast+
  from 2 have 3: "remove_old_file ''B'' (remove_old_file ''A'' (''h'' @ concat pair_blocks @ [NL]))
             = ''h'' @ [NL] @ ''x'' @ [NL]"
    by (simp add: pair_stale_AB)
  have 4: "remove_old_file ''A'' (''h'' @ concat pair_blocks @ [NL])
             \<noteq> ''h'' @ concat pair_blocks @ [NL]"
    unfolding remove_old_file_laid_out [OF a pair_laid_out_A] pair_stale_A
    by (simp add: pair_blocks_def)
  have 5: "remove_old_file ''B'' (''h'' @ concat pair_blocks @ [NL])
             \<noteq> ''h'' @ concat pair_blocks @ [NL]"
    unfolding remove_old_file_laid_out [OF b pair_laid_out_B] pair_stale_B
    by (simp add: pair_blocks_def)
  from 1 3 4 5 show ?thesis by blast
qed

section \<open>The insertion step\<close>

subsection \<open>One turn of the loop\<close>

lemma insert_entry_eq:
  "insert_entry pos (f, i) c =
     (if str_in f c then c else slice_to c pos @ build_entry f i @ slice_from c pos)"
  by (simp add: insert_entry_def)

lemma add_new_files_eq:
  "add_new_files news D = foldl (\<lambda>c e. insert_entry (str_find anchor D) e c) D news"
  by (simp add: add_new_files_def Let_def)

lemma str_in_appendI1: "str_in f a \<Longrightarrow> str_in f (a @ u)"
proof -
  assume "str_in f a"
  then obtain p q where "a = p @ f @ q" unfolding str_in_iff by blast
  then have "a @ u = p @ f @ (q @ u)" by simp
  then show ?thesis unfolding str_in_iff by blast
qed

lemma str_in_appendI2: "str_in f b \<Longrightarrow> str_in f (v @ b)"
proof -
  assume "str_in f b"
  then obtain p q where "b = p @ f @ q" unfolding str_in_iff by blast
  then have "v @ b = (v @ p) @ f @ q" by simp
  then show ?thesis unfolding str_in_iff by blast
qed

lemma str_in_trans: "str_in f g \<Longrightarrow> str_in g s \<Longrightarrow> str_in f s"
proof -
  assume "str_in f g" and "str_in g s"
  then obtain p q p' q' where "g = p @ f @ q" "s = p' @ g @ q'" unfolding str_in_iff by blast
  then have "s = (p' @ p) @ f @ (q @ q')" by simp
  then show ?thesis unfolding str_in_iff by blast
qed

lemma str_in_build_entry: "str_in f (build_entry f i)"
proof -
  have "build_entry f i = ([TAB, TAB] @ i @ ''_BUILD /* '') @ f
          @ ('' in Sources */ = {isa = PBXBuildFile; fileRef = '' @ i @ '' /* '' @ f @ '' */; };'' @ [NL])"
    by (simp add: build_entry_def)
  then show ?thesis unfolding str_in_iff by blast
qed

lemma str_in_insert_entry: "str_in f (insert_entry pos (f, i) c)"
  by (simp add: insert_entry_eq str_in_appendI1 str_in_appendI2 str_in_build_entry)

lemma slice_to_minus_one: "slice_to s (- 1) = butlast s"
  by (cases s rule: rev_cases) (simp_all add: slice_to_def slice_index_def)

lemma slice_from_minus_one: "slice_from s (- 1) = (if s = [] then [] else [last s])"
  by (cases s rule: rev_cases) (simp_all add: slice_from_def slice_index_def)

subsection \<open>A missing anchor\<close>

lemma sentinel_loop_keeps:
  "\<exists>ins. foldl (\<lambda>c e. insert_entry (- 1) e c) (butlast D @ ins0 @ (if D = [] then [] else [last D])) news
           = butlast D @ ins @ (if D = [] then [] else [last D])"
proof (induction news arbitrary: ins0)
  case Nil
  show ?case by auto
next
  case (Cons e news)
  let ?c = "butlast D @ ins0 @ (if D = [] then [] else [last D])"
  obtain f i where e: "e = (f, i)" by (cases e)
  have "\<exists>ins1. insert_entry (- 1) e ?c = butlast D @ ins1 @ (if D = [] then [] else [last D])"
  proof (cases "str_in f ?c")
    case True
    then have "insert_entry (- 1) e ?c = ?c" by (simp add: e insert_entry_eq)
    then show ?thesis by blast
  next
    case False
    show ?thesis
    proof (cases "D = []")
      case True
      with False have "insert_entry (- 1) e ?c
          = butlast D @ (slice_to ins0 (- 1) @ build_entry f i @ slice_from ins0 (- 1))
              @ (if D = [] then [] else [last D])"
        by (simp add: e insert_entry_eq)
      then show ?thesis by blast
    next
      case nonempty: False
      then have "slice_to ?c (- 1) = butlast D @ ins0" and "slice_from ?c (- 1) = [last D]"
        by (simp_all add: slice_to_minus_one slice_from_minus_one butlast_append)
      with False nonempty have "insert_entry (- 1) e ?c
          = butlast D @ (ins0 @ build_entry f i) @ (if D = [] then [] else [last D])"
        by (simp add: e insert_entry_eq)
      then show ?thesis by blast
    qed
  qed
  then obtain ins1 where
    "insert_entry (- 1) e ?c = butlast D @ ins1 @ (if D = [] then [] else [last D])" by blast
  with Cons.IH [of ins1] show ?case by simp
qed

lemma sentinel_loop_lines:
  "foldl (\<lambda>c e. insert_entry (- 1) e c) (B @ ins0 @ [x]) news
     = B @ ins0
         @ concat (map (\<lambda>(f, i). build_entry f i) (inserted_entries (- 1) news (B @ ins0 @ [x])))
         @ [x]"
proof (induction news arbitrary: ins0)
  case Nil
  show ?case by simp
next
  case (Cons e news)
  obtain f i where e: "e = (f, i)" by (cases e)
  let ?c = "B @ ins0 @ [x]"
  show ?case
  proof (cases "str_in f ?c")
    case True
    then have "insert_entry (- 1) e ?c = ?c" by (simp add: e insert_entry_eq)
    with True Cons.IH [of ins0] show ?thesis by (simp add: e)
  next
    case False
    have "slice_to ?c (- 1) = B @ ins0" and "slice_from ?c (- 1) = [x]"
      by (simp_all add: slice_to_minus_one slice_from_minus_one butlast_append)
    with False have ie: "insert_entry (- 1) e ?c = B @ (ins0 @ build_entry f i) @ [x]"
      by (simp add: e insert_entry_eq)
    from False have "inserted_entries (- 1) (e # news) ?c
        = e # inserted_entries (- 1) news (B @ (ins0 @ build_entry f i) @ [x])"
      using ie by (simp add: e)
    with Cons.IH [of "ins0 @ build_entry f i"] ie show ?thesis by (simp add: e)
  qed
qed

text \<open>
  Claim C2, as stated: without the anchor, an entry whose file name is absent is inserted
  at position 0. It is not: \<^verbatim>\<open>find\<close> returns \<open>-1\<close>, and the slices at \<open>-1\<close> put the
  lines before the last character of the document.
\<close>

theorem missing_anchor_not_at_start:
  "\<not> str_in anchor ''{}''
   \<and> add_new_files new_files ''{}''
       = ''{'' @ build_entry ''AuthManager.swift'' ''E2DB26F22E53A25D00139AA3''
           @ build_entry ''ChatView.swift'' ''E2DB26F32E53A25D00139AA3''
           @ build_entry ''ChatViewModel.swift'' ''E2DB26F42E53A25D00139AA3'' @ ''}''
   \<and> take 1 (add_new_files new_files ''{}'') = ''{''"
  by code_simp

text \<open>
  Claim C2, amended. For every document that does not contain the anchor, the insertion
  step raises no error (it is a total function: \<^verbatim>\<open>find\<close> returns \<open>-1\<close> and slicing
  never raises) and loses no existing data, but the new lines are put before the last
  character of the document, not at position 0:

    \<^item> for a document that is not empty, the result is the document without its last
      character, then the lines of the entries whose file name was absent when their
      turn came, in the order of the list, then the last character;

    \<^item> for every document, the result is the document without its last character, then
      some new text, then the last character if there is one;

    \<^item> for a single entry, the new text is the line of the entry if its file name is
      absent from the document, and nothing otherwise.
\<close>

theorem missing_anchor_keeps_text:
  assumes "\<not> str_in anchor D"
  shows "(D \<noteq> [] \<longrightarrow>
            add_new_files news D
              = butlast D @ concat (map (\<lambda>(f, i). build_entry f i) (lines_added news D)) @ [last D])
         \<and> (\<exists>ins. add_new_files news D = butlast D @ ins @ (if D = [] then [] else [last D]))
         \<and> add_new_files [(f, i)] D
             = butlast D @ (if str_in f D then [] else build_entry f i)
                 @ (if D = [] then [] else [last D])"
proof -
  from assms have pos: "str_find anchor D = - 1" by (rule str_find_absent)
  define post where "post = (if D = [] then [] else [last D])"
  have D: "butlast D @ [] @ post = D" by (simp add: post_def)
  have 1: "add_new_files news D
      = butlast D @ concat (map (\<lambda>(f, i). build_entry f i) (lines_added news D)) @ [last D]"
    if ne: "D \<noteq> []"
  proof -
    from ne have D': "butlast D @ [] @ [last D] = D" by simp
    from sentinel_loop_lines [of "butlast D" "[]" "last D" news]
    have "foldl (\<lambda>c e. insert_entry (- 1) e c) D news
            = butlast D @ []
                @ concat (map (\<lambda>(f, i). build_entry f i) (inserted_entries (- 1) news D))
                @ [last D]"
      by (simp only: D')
    then show ?thesis
      by (simp only: add_new_files_eq lines_added_def pos append_Nil)
  qed
  from sentinel_loop_keeps [of D "[]" news] obtain ins where
    "foldl (\<lambda>c e. insert_entry (- 1) e c) (butlast D @ [] @ post) news
       = butlast D @ ins @ post" unfolding post_def by blast
  then have "foldl (\<lambda>c e. insert_entry (- 1) e c) D news = butlast D @ ins @ post"
    by (simp only: D)
  then have "add_new_files news D = butlast D @ ins @ post"
    by (simp only: add_new_files_eq pos)
  then have 2: "\<exists>ins. add_new_files news D = butlast D @ ins @ post" by blast
  have "add_new_files [(f, i)] D = insert_entry (- 1) (f, i) D"
    by (simp add: add_new_files_eq pos)
  also have "\<dots> = butlast D @ (if str_in f D then [] else build_entry f i) @ post"
  proof (cases "str_in f D")
    case True
    with D show ?thesis by (simp add: insert_entry_eq)
  next
    case False
    then show ?thesis by (simp add: insert_entry_eq slice_minus_one post_def)
  qed
  finally have 3: "add_new_files [(f, i)] D
      = butlast D @ (if str_in f D then [] else build_entry f i) @ post" .
  from 1 2 3 show ?thesis unfolding post_def by blast
qed

theorem missing_anchor_keeps_text_witness:
  "add_new_files new_files ''{}''
     = butlast ''{}'' @ concat (map (\<lambda>(f, i). build_entry f i) (lines_added new_files ''{}''))
         @ [last ''{}'']
   \<and> (\<exists>ins. add_new_files new_files ''{}''
          = butlast ''{}'' @ ins @ (if ''{}'' = [] then [] else [last ''{}'']))
   \<and> add_new_files [(''N.swift'', ''ID'')] ''{}''
       = butlast ''{}'' @ (if str_in ''N.swift'' ''{}'' then [] else build_entry ''N.swift'' ''ID'')
           @ (if ''{}'' = [] then [] else [last ''{}''])
   \<and> add_new_files [(''N.swift'', ''ID'')] ''{}'' = ''{'' @ build_entry ''N.swift'' ''ID'' @ ''}''"
proof -
  have a: "\<not> str_in anchor ''{}''" by (simp add: anchor_def)
  have n: "''{}'' \<noteq> []" by simp
  note t = missing_anchor_keeps_text [OF a, of new_files "''N.swift''" "''ID''"]
  from t n have 1: "add_new_files new_files ''{}''
     = butlast ''{}'' @ concat (map (\<lambda>(f, i). build_entry f i) (lines_added new_files ''{}''))
         @ [last ''{}'']" by blast
  from t have 2: "\<exists>ins. add_new_files new_files ''{}''
          = butlast ''{}'' @ ins @ (if ''{}'' = [] then [] else [last ''{}''])" by blast
  from t have 3: "add_new_files [(''N.swift'', ''ID'')] ''{}''
       = butlast ''{}'' @ (if str_in ''N.swift'' ''{}'' then [] else build_entry ''N.swift'' ''ID'')
           @ (if ''{}'' = [] then [] else [last ''{}''])" by blast
  from 3 have 4: "add_new_files [(''N.swift'', ''ID'')] ''{}'' = ''{'' @ build_entry ''N.swift'' ''ID'' @ ''}''"
    by simp
  from 1 2 3 4 show ?thesis by blast
qed

subsection \<open>The presence check\<close>

text \<open>
  Claim C10. The entry is skipped whenever its file name occurs anywhere in the current
  document as a plain substring: the turn of the loop returns the document unchanged and
  inserts nothing. This is so when the file name is part of a longer file name; and an
  entry whose file name is part of the file name of the entry before it, or part of the
  line that was inserted for the entry before it, gets no line.
\<close>

theorem presence_check_is_substring:
  "(str_in f c \<longrightarrow> insert_entry pos (f, i) c = c \<and> inserted_entries pos [(f, i)] c = [])
   \<and> (str_in f2 f1 \<longrightarrow>
        add_new_files [(f1, i1), (f2, i2)] D = add_new_files [(f1, i1)] D)
   \<and> (\<not> str_in f1 D \<and> str_in f2 (build_entry f1 i1) \<longrightarrow>
        add_new_files [(f1, i1), (f2, i2)] D = add_new_files [(f1, i1)] D
        \<and> lines_added [(f1, i1), (f2, i2)] D = [(f1, i1)])"
proof (intro conjI impI)
  assume "str_in f c"
  then show "insert_entry pos (f, i) c = c" by (simp add: insert_entry_eq)
next
  assume "str_in f c"
  then show "inserted_entries pos [(f, i)] c = []" by simp
next
  assume sub: "str_in f2 f1"
  let ?pos = "str_find anchor D"
  have "str_in f1 (insert_entry ?pos (f1, i1) D)" by (rule str_in_insert_entry)
  with sub have "str_in f2 (insert_entry ?pos (f1, i1) D)" by (rule str_in_trans)
  then show "add_new_files [(f1, i1), (f2, i2)] D = add_new_files [(f1, i1)] D"
    by (simp add: add_new_files_eq insert_entry_eq [of ?pos f2])
next
  assume a: "\<not> str_in f1 D \<and> str_in f2 (build_entry f1 i1)"
  let ?pos = "str_find anchor D"
  from a have ie: "insert_entry ?pos (f1, i1) D
      = slice_to D ?pos @ build_entry f1 i1 @ slice_from D ?pos"
    by (simp add: insert_entry_eq)
  from a have "str_in f2 (build_entry f1 i1 @ slice_from D ?pos)" by (simp add: str_in_appendI1)
  then have in2: "str_in f2 (insert_entry ?pos (f1, i1) D)"
    unfolding ie by (rule str_in_appendI2)
  then show "add_new_files [(f1, i1), (f2, i2)] D = add_new_files [(f1, i1)] D"
    by (simp add: add_new_files_eq insert_entry_eq [of ?pos f2])
  from a in2 show "lines_added [(f1, i1), (f2, i2)] D = [(f1, i1)]"
    by (simp add: lines_added_def)
qed

theorem presence_check_is_substring_witness:
  "str_in ''ChatView.swift'' ''/* MyChatView.swift */''
   \<and> insert_entry 0 (''ChatView.swift'', ''ID'') ''/* MyChatView.swift */'' = ''/* MyChatView.swift */''
   \<and> inserted_entries 0 [(''ChatView.swift'', ''ID'')] ''/* MyChatView.swift */'' = []
   \<and> add_new_files [(''MyChatView.swift'', ''A''), (''ChatView.swift'', ''B'')] ''{}''
       = add_new_files [(''MyChatView.swift'', ''A'')] ''{}''
   \<and> lines_added [(''MyChatView.swift'', ''A''), (''ChatView.swift'', ''B'')] ''{}''
       = [(''MyChatView.swift'', ''A'')]"
proof -
  have 1: "str_in ''ChatView.swift'' ''/* MyChatView.swift */''" by simp
  have 2: "str_in ''ChatView.swift'' ''MyChatView.swift''" by simp
  have 3: "\<not> str_in ''MyChatView.swift'' ''{}''" by simp
  have "str_in ''MyChatView.swift'' (build_entry ''MyChatView.swift'' ''A'')"
    by (rule str_in_build_entry)
  with 2 have 4: "str_in ''ChatView.swift'' (build_entry ''MyChatView.swift'' ''A'')"
    by (rule str_in_trans)
  from presence_check_is_substring
    [of "''ChatView.swift''" "''/* MyChatView.swift */''" 0 "''ID''" "''ChatView.swift''"
      "''MyChatView.swift''" "''A''" "''B''" "''{}''"] 1 2 3 4
  show ?thesis by blast
qed

section \<open>Entries that get no line\<close>

subsection \<open>The cut of the document at the insertion index\<close>

lemma insert_entry_length: "length c \<le> length (insert_entry pos e c)"
proof -
  obtain f i where e: "e = (f, i)" by (cases e)
  have "length (slice_to c pos @ build_entry f i @ slice_from c pos)
          = length (slice_to c pos @ slice_from c pos) + length (build_entry f i)"
    by simp
  then show ?thesis by (simp add: e insert_entry_eq slice_to_from)
qed

lemma insert_entry_valid:
  assumes "pos = - 1 \<or> (0 \<le> pos \<and> pos \<le> int (length c))"
  shows "pos = - 1 \<or> (0 \<le> pos \<and> pos \<le> int (length (insert_entry pos e c)))"
  using assms insert_entry_length [of c pos e] by linarith

lemma insert_cut_nonneg:
  assumes "0 \<le> pos" and "pos \<le> int (length c)"
  shows "slice_to (slice_to c pos @ e @ slice_from c pos) pos = slice_to c pos"
    and "slice_from (slice_to c pos @ e @ slice_from c pos) pos = e @ slice_from c pos"
proof -
  have len: "int (length (slice_to c pos)) = pos"
    using assms by (simp add: slice_to_def slice_index_def)
  from slice_to_nat [of "slice_to c pos" "e @ slice_from c pos"]
  show "slice_to (slice_to c pos @ e @ slice_from c pos) pos = slice_to c pos"
    by (simp only: len)
  from slice_from_nat [of "slice_to c pos" "e @ slice_from c pos"]
  show "slice_from (slice_to c pos @ e @ slice_from c pos) pos = e @ slice_from c pos"
    by (simp only: len)
qed

lemma insert_cut_minus_one:
  assumes "c \<noteq> []"
  shows "slice_to (slice_to c (- 1) @ e @ slice_from c (- 1)) (- 1) = slice_to c (- 1) @ e"
    and "slice_from (slice_to c (- 1) @ e @ slice_from c (- 1)) (- 1) = slice_from c (- 1)"
  using assms by (simp_all add: slice_to_minus_one slice_from_minus_one butlast_append)

lemma side_insert:
  assumes ext: "\<And>x u v. P x \<Longrightarrow> P (u @ x @ v)"
    and valid: "pos = - 1 \<or> (0 \<le> pos \<and> pos \<le> int (length c))"
    and side: "P (slice_to c pos) \<or> P (slice_from c pos)"
  shows "P (slice_to (insert_entry pos e c) pos) \<or> P (slice_from (insert_entry pos e c) pos)"
proof -
  obtain f i where e: "e = (f, i)" by (cases e)
  have extl: "P (x @ u)" if "P x" for x u using ext [OF that, of "[]" u] by simp
  have extr: "P (v @ x)" if "P x" for x v using ext [OF that, of v "[]"] by simp
  show ?thesis
  proof (cases "str_in f c")
    case True
    with side show ?thesis by (simp add: e insert_entry_eq)
  next
    case False
    let ?b = "build_entry f i"
    from False have ie: "insert_entry pos e c = slice_to c pos @ ?b @ slice_from c pos"
      by (simp add: e insert_entry_eq)
    from valid show ?thesis
    proof
      assume pos: "pos = - 1"
      show ?thesis
      proof (cases "c = []")
        case True
        with side pos have "P []" by (simp add: slice_to_def slice_from_def)
        from extl [OF this] show ?thesis by simp
      next
        case ne: False
        from side have "P (slice_to c (- 1) @ ?b) \<or> P (slice_from c (- 1))"
          unfolding pos using extl by blast
        then show ?thesis
          unfolding pos ie [unfolded pos] by (simp only: insert_cut_minus_one [OF ne])
      qed
    next
      assume "0 \<le> pos \<and> pos \<le> int (length c)"
      then have p: "0 \<le> pos" "pos \<le> int (length c)" by simp_all
      from side have "P (slice_to c pos) \<or> P (?b @ slice_from c pos)"
        using extr by blast
      then show ?thesis
        unfolding ie by (simp only: insert_cut_nonneg [OF p])
    qed
  qed
qed

lemma side_loop:
  assumes ext: "\<And>x u v. P x \<Longrightarrow> P (u @ x @ v)"
    and valid: "pos = - 1 \<or> (0 \<le> pos \<and> pos \<le> int (length c))"
    and side: "P (slice_to c pos) \<or> P (slice_from c pos)"
  shows "P (foldl (\<lambda>c e. insert_entry pos e c) c es)"
  using valid side
proof (induction es arbitrary: c)
  case Nil
  have "P (slice_to c pos @ slice_from c pos)"
    using Nil.prems(2) ext [of "slice_to c pos" "[]" "slice_from c pos"]
      ext [of "slice_from c pos" "slice_to c pos" "[]"] by auto
  then show ?case by (simp add: slice_to_from)
next
  case (Cons e es)
  from Cons.prems(1) have "pos = - 1 \<or> (0 \<le> pos \<and> pos \<le> int (length (insert_entry pos e c)))"
    by (rule insert_entry_valid)
  moreover from ext Cons.prems
  have "P (slice_to (insert_entry pos e c) pos) \<or> P (slice_from (insert_entry pos e c) pos)"
    by (rule side_insert)
  ultimately have "P (foldl (\<lambda>c e. insert_entry pos e c) (insert_entry pos e c) es)"
    by (rule Cons.IH)
  then show ?case by simp
qed

subsection \<open>A file name that occurs on one side of the cut\<close>

lemma str_in_ext: "str_in f x \<Longrightarrow> str_in f (u @ x @ v)"
  by (simp add: str_in_appendI1 str_in_appendI2)

lemma side_skips:
  assumes valid: "pos = - 1 \<or> (0 \<le> pos \<and> pos \<le> int (length c))"
    and side: "str_in f (slice_to c pos) \<or> str_in f (slice_from c pos)"
  shows "\<forall>e\<in>set (inserted_entries pos es c). fst e \<noteq> f"
  using valid side
proof (induction es arbitrary: c)
  case Nil
  show ?case by simp
next
  case (Cons e es)
  have "str_in f (slice_to c pos @ slice_from c pos)"
    using Cons.prems(2) str_in_appendI1 str_in_appendI2 by blast
  then have inc: "str_in f c" by (simp add: slice_to_from)
  show ?case
  proof (cases "str_in (fst e) c")
    case True
    then have "inserted_entries pos (e # es) c = inserted_entries pos es c" by simp
    with Cons.IH [OF Cons.prems] show ?thesis by simp
  next
    case False
    with inc have ne: "fst e \<noteq> f" by auto
    have v: "pos = - 1 \<or> (0 \<le> pos \<and> pos \<le> int (length (insert_entry pos e c)))"
      using Cons.prems(1) by (rule insert_entry_valid)
    have s: "str_in f (slice_to (insert_entry pos e c) pos)
               \<or> str_in f (slice_from (insert_entry pos e c) pos)"
      using str_in_ext Cons.prems by (rule side_insert)
    from False have "inserted_entries pos (e # es) c
        = e # inserted_entries pos es (insert_entry pos e c)" by simp
    with Cons.IH [OF v s] ne show ?thesis by simp
  qed
qed

lemma occurrence_side:
  assumes "str_in f D" and "D ! k \<notin> set (tl f)"
  shows "str_in f (take k D) \<or> str_in f (drop k D)"
proof -
  from assms(1) obtain a b where D: "D = a @ f @ b" unfolding str_in_iff by blast
  consider "k \<le> length a" | "length a + length f \<le> k" | "length a < k" "k < length a + length f"
    by linarith
  then show ?thesis
  proof cases
    case 1
    then have "drop k D = drop k a @ f @ b" by (simp add: D)
    then have "str_in f (drop k D)" unfolding str_in_iff by blast
    then show ?thesis by blast
  next
    case 2
    then have "take k D = a @ f @ take (k - length a - length f) b" by (simp add: D)
    then have "str_in f (take k D)" unfolding str_in_iff by blast
    then show ?thesis by blast
  next
    case 3
    define j where "j = k - length a - 1"
    from 3 have j: "j < length (tl f)" and k: "k - length a = Suc j"
      by (simp_all add: j_def)
    from 3 have "k - length a < length f" by linarith
    with 3 have "D ! k = f ! (k - length a)" by (simp add: D nth_append)
    also have "\<dots> = tl f ! j" using j by (simp add: k nth_tl)
    finally have "D ! k \<in> set (tl f)" using j by simp
    with assms(2) show ?thesis by blast
  qed
qed

lemma anchor_side:
  assumes "str_in anchor D" and "hd anchor \<notin> set (tl f)" and "str_in f D"
  shows "str_in f (slice_to D (str_find anchor D)) \<or> str_in f (slice_from D (str_find anchor D))"
proof -
  from str_find_present [OF assms(1)] obtain pre post where
    D: "D = pre @ anchor @ post" and pos: "str_find anchor D = int (length pre)" by blast
  have "anchor \<noteq> []" by (simp add: anchor_def)
  then have "D ! length pre = hd anchor" by (simp add: D nth_append hd_conv_nth)
  with assms(2) have "D ! length pre \<notin> set (tl f)" by simp
  with assms(3) have "str_in f (take (length pre) D) \<or> str_in f (drop (length pre) D)"
    by (rule occurrence_side)
  moreover have "slice_index (int (length pre)) (length D) = length pre"
    by (simp add: slice_index_def D)
  ultimately show ?thesis by (simp add: pos slice_to_def slice_from_def)
qed

subsection \<open>The line of an entry holds its file name twice\<close>

lemma twice_in_ext: "twice_in f x \<Longrightarrow> twice_in f (u @ x @ v)"
proof -
  assume "twice_in f x"
  then obtain a b c where "x = a @ f @ b @ f @ c" unfolding twice_in_def by blast
  then have "u @ x @ v = (u @ a) @ f @ b @ f @ (c @ v)" by simp
  then show ?thesis unfolding twice_in_def by blast
qed

lemma twice_in_build_entry:
  "twice_in f (butlast (build_entry f i)) \<and> twice_in f (build_entry f i)"
proof -
  let ?x = "([TAB, TAB] @ i @ ''_BUILD /* '') @ f
      @ ('' in Sources */ = {isa = PBXBuildFile; fileRef = '' @ i @ '' /* '') @ f @ '' */; };''"
  have eq: "build_entry f i = ?x @ [NL]" by (simp add: build_entry_def)
  have x: "twice_in f ?x" unfolding twice_in_def by blast
  have "butlast (build_entry f i) = ?x" unfolding eq by (rule butlast_snoc)
  with x have 1: "twice_in f (butlast (build_entry f i))" by simp
  from twice_in_ext [OF x, of "[]" "[NL]"] have 2: "twice_in f (build_entry f i)"
    unfolding eq by simp
  from 1 2 show ?thesis by blast
qed

lemma twice_in_cut:
  assumes "twice_in f s"
  shows "str_in f (take k s) \<or> str_in f (drop k s)"
proof -
  from assms obtain a b c where s: "s = a @ f @ b @ f @ c" unfolding twice_in_def by blast
  show ?thesis
  proof (cases "length (a @ f) \<le> k")
    case True
    have "take k s = take k ((a @ f) @ b @ f @ c)" by (simp add: s)
    also have "\<dots> = a @ f @ take (k - length (a @ f)) (b @ f @ c)"
      using True by simp
    finally have "str_in f (take k s)" unfolding str_in_iff by blast
    then show ?thesis by blast
  next
    case False
    have "drop k s = drop k ((a @ f @ b) @ f @ c)" by (simp add: s)
    also have "\<dots> = drop k (a @ f @ b) @ f @ c"
      using False by simp
    finally have "str_in f (drop k s)" unfolding str_in_iff by blast
    then show ?thesis by blast
  qed
qed

lemma twice_in_side:
  "twice_in f s \<Longrightarrow> str_in f (slice_to s pos) \<or> str_in f (slice_from s pos)"
  unfolding slice_to_def slice_from_def by (rule twice_in_cut)

lemma inserted_side:
  assumes valid: "pos = - 1 \<or> (0 \<le> pos \<and> pos \<le> int (length c))"
    and absent: "\<not> str_in f c"
  shows "twice_in f (slice_to (insert_entry pos (f, i) c) pos)
         \<or> twice_in f (slice_from (insert_entry pos (f, i) c) pos)"
proof -
  let ?b = "build_entry f i"
  from absent have ie: "insert_entry pos (f, i) c = slice_to c pos @ ?b @ slice_from c pos"
    by (simp add: insert_entry_eq)
  from valid show ?thesis
  proof
    assume pos: "pos = - 1"
    show ?thesis
    proof (cases "c = []")
      case True
      then have "insert_entry (- 1) (f, i) c = ?b"
        unfolding ie [unfolded pos] by (simp add: slice_to_def slice_from_def)
      then show ?thesis
        unfolding pos by (simp add: slice_to_minus_one twice_in_build_entry)
    next
      case ne: False
      have "twice_in f ?b" by (simp add: twice_in_build_entry)
      from twice_in_ext [OF this, of "slice_to c (- 1)" "[]"]
      have "twice_in f (slice_to c (- 1) @ ?b)" by simp
      then show ?thesis
        unfolding pos ie [unfolded pos] by (simp only: insert_cut_minus_one [OF ne] simp_thms)
    qed
  next
    assume "0 \<le> pos \<and> pos \<le> int (length c)"
    then have p: "0 \<le> pos" "pos \<le> int (length c)" by simp_all
    have "twice_in f ?b" by (simp add: twice_in_build_entry)
    from twice_in_ext [OF this, of "[]" "slice_from c pos"]
    have "twice_in f (?b @ slice_from c pos)" by simp
    then show ?thesis
      unfolding ie by (simp only: insert_cut_nonneg [OF p] simp_thms)
  qed
qed

lemma inserted_twice:
  assumes valid: "pos = - 1 \<or> (0 \<le> pos \<and> pos \<le> int (length c))"
    and mem: "e \<in> set (inserted_entries pos es c)"
  shows "twice_in (fst e) (foldl (\<lambda>c e. insert_entry pos e c) c es)"
  using valid mem
proof (induction es arbitrary: c)
  case Nil
  then show ?case by simp
next
  case (Cons e0 es)
  obtain f0 i0 where e0: "e0 = (f0, i0)" by (cases e0)
  let ?c1 = "insert_entry pos e0 c"
  have v: "pos = - 1 \<or> (0 \<le> pos \<and> pos \<le> int (length ?c1))"
    using Cons.prems(1) by (rule insert_entry_valid)
  show ?case
  proof (cases "str_in f0 c")
    case True
    then have "?c1 = c" by (simp add: e0 insert_entry_eq)
    moreover from True Cons.prems(2) have "e \<in> set (inserted_entries pos es c)"
      by (simp add: e0)
    ultimately show ?thesis using Cons.IH [OF Cons.prems(1)] by simp
  next
    case False
    with Cons.prems(2) consider "e = e0" | "e \<in> set (inserted_entries pos es ?c1)"
      by (auto simp: e0)
    then show ?thesis
    proof cases
      case 1
      have "twice_in f0 (slice_to ?c1 pos) \<or> twice_in f0 (slice_from ?c1 pos)"
        unfolding e0 using Cons.prems(1) False by (rule inserted_side)
      with twice_in_ext v have "twice_in f0 (foldl (\<lambda>c e. insert_entry pos e c) ?c1 es)"
        by (rule side_loop)
      with 1 show ?thesis by (simp add: e0)
    next
      case 2
      with Cons.IH [OF v] show ?thesis by simp
    qed
  qed
qed

subsection \<open>The lines added and the length of the document\<close>

lemma inserted_entries_length:
  "length (foldl (\<lambda>c e. insert_entry pos e c) c es)
     = length c + sum_list (map (\<lambda>(f, i). length (build_entry f i)) (inserted_entries pos es c))"
proof (induction es arbitrary: c)
  case Nil
  show ?case by simp
next
  case (Cons e es)
  obtain f i where e: "e = (f, i)" by (cases e)
  show ?case
  proof (cases "str_in f c")
    case True
    then have "insert_entry pos e c = c" by (simp add: e insert_entry_eq)
    with True Cons.IH [of c] show ?thesis by (simp add: e)
  next
    case False
    have "length (slice_to c pos @ build_entry f i @ slice_from c pos)
            = length (slice_to c pos @ slice_from c pos) + length (build_entry f i)"
      by simp
    with False have "length (insert_entry pos e c) = length c + length (build_entry f i)"
      by (simp add: e insert_entry_eq slice_to_from)
    with False Cons.IH [of "insert_entry pos e c"] show ?thesis by (simp add: e)
  qed
qed

lemma all_present_keeps:
  "\<forall>e\<in>set es. str_in (fst e) c \<Longrightarrow>
     foldl (\<lambda>c e. insert_entry pos e c) c es = c \<and> inserted_entries pos es c = []"
proof (induction es)
  case Nil
  show ?case by simp
next
  case (Cons e es)
  obtain f i where e: "e = (f, i)" by (cases e)
  from Cons.prems have "str_in f c" by (simp add: e)
  then have "insert_entry pos e c = c" and "inserted_entries pos (e # es) c = inserted_entries pos es c"
    by (simp_all add: e insert_entry_eq)
  with Cons show ?case by simp
qed

subsection \<open>No second line\<close>

text \<open>
  Claim C4, as stated: for every document and every entry whose file name already occurs
  in the document, the insertion step adds no line for that file name. It fails for the
  document \<^verbatim>\<open>path = ChatView.swift\<close>, which has no anchor: the line for
  \<^verbatim>\<open>AuthManager.swift\<close> is put before the last character, in the middle of the only
  occurrence of \<^verbatim>\<open>ChatView.swift\<close>, so that when the turn of \<^verbatim>\<open>ChatView.swift\<close> comes
  its file name is absent and its line is added.
\<close>

theorem insertion_adds_line_for_present:
  "str_in ''ChatView.swift'' ''path = ChatView.swift''
   \<and> lines_added new_files ''path = ChatView.swift'' = new_files
   \<and> add_new_files new_files ''path = ChatView.swift''
       = ''path = ChatView.swif''
           @ build_entry ''AuthManager.swift'' ''E2DB26F22E53A25D00139AA3''
           @ build_entry ''ChatView.swift'' ''E2DB26F32E53A25D00139AA3''
           @ build_entry ''ChatViewModel.swift'' ''E2DB26F42E53A25D00139AA3'' @ ''t''"
  by code_simp

text \<open>
  Claim C4, amended. The lines added by a run are those of the entries for which the
  body of the \<^verbatim>\<open>if\<close> runs; the document grows by exactly their lengths. For every
  document and every list of entries:

    \<^item> if every file name of the list occurs in the document, the run adds no line and
      returns the document as it is;

    \<^item> if a file name occurs in the part of the document before the insertion index or
      in the part from the insertion index on (the two slices that the loop takes), the
      run adds no line for that file name;

    \<^item> if the document contains the anchor, and a file name that holds the first
      character of the anchor, \<^verbatim>\<open>E\<close>, at most as its own first character (as do the
      three file names of the script) occurs in the document, the run adds no line for
      that file name;

    \<^item> a second run, with the same or another list, on the result of the first adds no
      line for a file name for which the first run added one.
\<close>

theorem insertion_no_duplicate:
  "length (add_new_files news D)
     = length D + sum_list (map (\<lambda>(f, i). length (build_entry f i)) (lines_added news D))
   \<and> ((\<forall>e\<in>set news. str_in (fst e) D) \<longrightarrow> lines_added news D = [] \<and> add_new_files news D = D)
   \<and> (str_in f (slice_to D (str_find anchor D)) \<or> str_in f (slice_from D (str_find anchor D))
        \<longrightarrow> (\<forall>e\<in>set (lines_added news D). fst e \<noteq> f))
   \<and> (str_in anchor D \<and> hd anchor \<notin> set (tl f) \<and> str_in f D
        \<longrightarrow> (\<forall>e\<in>set (lines_added news D). fst e \<noteq> f))
   \<and> (\<forall>e\<in>set (lines_added news D).
         \<forall>e'\<in>set (lines_added news' (add_new_files news D)). fst e' \<noteq> fst e)"
proof (intro conjI impI ballI)
  show "length (add_new_files news D)
     = length D + sum_list (map (\<lambda>(f, i). length (build_entry f i)) (lines_added news D))"
    by (simp only: add_new_files_eq lines_added_def inserted_entries_length)
next
  assume "\<forall>e\<in>set news. str_in (fst e) D"
  from all_present_keeps [OF this, of "str_find anchor D"]
  show "lines_added news D = []" and "add_new_files news D = D"
    by (simp_all only: add_new_files_eq lines_added_def)
next
  fix e
  assume side: "str_in f (slice_to D (str_find anchor D)) \<or> str_in f (slice_from D (str_find anchor D))"
    and e: "e \<in> set (lines_added news D)"
  from side_skips [OF str_find_range side, of news] e show "fst e \<noteq> f"
    by (simp add: lines_added_def)
next
  fix e
  assume a: "str_in anchor D \<and> hd anchor \<notin> set (tl f) \<and> str_in f D"
    and e: "e \<in> set (lines_added news D)"
  from a have "str_in f (slice_to D (str_find anchor D)) \<or> str_in f (slice_from D (str_find anchor D))"
    by (simp add: anchor_side)
  from side_skips [OF str_find_range this, of news] e show "fst e \<noteq> f"
    by (simp add: lines_added_def)
next
  fix e e'
  let ?R = "add_new_files news D"
  assume e: "e \<in> set (lines_added news D)" and e': "e' \<in> set (lines_added news' ?R)"
  from e have "e \<in> set (inserted_entries (str_find anchor D) news D)"
    by (simp add: lines_added_def)
  with str_find_range have "twice_in (fst e) (foldl (\<lambda>c e. insert_entry (str_find anchor D) e c) D news)"
    by (rule inserted_twice)
  then have "twice_in (fst e) ?R" by (simp only: add_new_files_eq)
  then have "str_in (fst e) (slice_to ?R (str_find anchor ?R))
             \<or> str_in (fst e) (slice_from ?R (str_find anchor ?R))"
    by (rule twice_in_side)
  from side_skips [OF str_find_range this, of news'] e' show "fst e' \<noteq> fst e"
    by (simp add: lines_added_def)
qed

theorem insertion_no_duplicate_witness:
  "str_in ''ChatView.swift'' (slice_to ''ChatView.swift;'' (str_find anchor ''ChatView.swift;''))
   \<and> lines_added new_files ''ChatView.swift;''
       = [(''AuthManager.swift'', ''E2DB26F22E53A25D00139AA3''),
          (''ChatViewModel.swift'', ''E2DB26F42E53A25D00139AA3'')]
   \<and> fst (''AuthManager.swift'', ''E2DB26F22E53A25D00139AA3'') \<noteq> ''ChatView.swift''
   \<and> lines_added [(''AuthManager.swift'', ''E2DB26F22E53A25D00139AA3''), (''New.swift'', ''N'')]
         (add_new_files new_files ''ChatView.swift;'')
       = [(''New.swift'', ''N'')]
   \<and> fst (''New.swift'', ''N'') \<noteq> fst (''AuthManager.swift'', ''E2DB26F22E53A25D00139AA3'')
   \<and> lines_added [(''ChatView.swift'', ''E2DB26F32E53A25D00139AA3'')] ''ChatView.swift;'' = []
   \<and> add_new_files [(''ChatView.swift'', ''E2DB26F32E53A25D00139AA3'')] ''ChatView.swift;''
       = ''ChatView.swift;''
   \<and> str_in anchor (''ChatView.swift '' @ anchor)
   \<and> hd anchor \<notin> set (tl ''ChatView.swift'')
   \<and> str_in ''ChatView.swift'' (''ChatView.swift '' @ anchor)
   \<and> lines_added new_files (''ChatView.swift '' @ anchor)
       = [(''AuthManager.swift'', ''E2DB26F22E53A25D00139AA3''),
          (''ChatViewModel.swift'', ''E2DB26F42E53A25D00139AA3'')]"
proof -
  let ?D = "''ChatView.swift;''"
  let ?A = "''ChatView.swift '' @ anchor"
  let ?a = "(''AuthManager.swift'', ''E2DB26F22E53A25D00139AA3'')"
  let ?m = "(''ChatViewModel.swift'', ''E2DB26F42E53A25D00139AA3'')"
  let ?n = "(''New.swift'', ''N'')"
  have side: "str_in ''ChatView.swift'' (slice_to ?D (str_find anchor ?D))"
    by code_simp
  have l1: "lines_added new_files ?D = [?a, ?m]"
    by code_simp
  have l2: "lines_added [?a, ?n] (add_new_files new_files ?D) = [?n]"
    by code_simp
  have p: "\<forall>e\<in>set [(''ChatView.swift'', ''E2DB26F32E53A25D00139AA3'')]. str_in (fst e) ?D"
    by simp
  have a1: "str_in anchor ?A" unfolding str_in_iff by (metis append_Nil2)
  have a2: "hd anchor \<notin> set (tl ''ChatView.swift'')" by (simp add: anchor_def)
  have a3: "str_in ''ChatView.swift'' ?A" by simp
  have l3: "lines_added new_files ?A = [?a, ?m]" by code_simp
  note t = insertion_no_duplicate [of new_files ?D "''ChatView.swift''" "[?a, ?n]"]
  from t side have "\<forall>e\<in>set (lines_added new_files ?D). fst e \<noteq> ''ChatView.swift''" by blast
  then have 1: "fst ?a \<noteq> ''ChatView.swift''" unfolding l1 by simp
  from t have "\<forall>e\<in>set (lines_added new_files ?D).
      \<forall>e'\<in>set (lines_added [?a, ?n] (add_new_files new_files ?D)). fst e' \<noteq> fst e" by blast
  then have 2: "fst ?n \<noteq> fst ?a" unfolding l1 l2 by simp
  from insertion_no_duplicate
    [of "[(''ChatView.swift'', ''E2DB26F32E53A25D00139AA3'')]" ?D "''ChatView.swift''" "[]"] p
  have 3: "lines_added [(''ChatView.swift'', ''E2DB26F32E53A25D00139AA3'')] ?D = []
           \<and> add_new_files [(''ChatView.swift'', ''E2DB26F32E53A25D00139AA3'')] ?D = ?D"
    by blast
  from insertion_no_duplicate [of new_files ?A "''ChatView.swift''" "[]"] a1 a2 a3
  have "\<forall>e\<in>set (lines_added new_files ?A). fst e \<noteq> ''ChatView.swift''" by blast
  from side l1 1 l2 2 3 a1 a2 a3 l3 show ?thesis by blast
qed

section \<open>The patch of a small project file\<close>













end
